theory Spec2Isabelle
  imports Complex_Main "HOL-Library.Word" "HOL-Library.Log_Nat"
begin

section \<open>Strings of the host language\<close>

text \<open>
  A string of the program is a sequence of 16-bit code units. Literals of the source are
  written \<open>js ''...''\<close>; all of them are ASCII, so every character is one code unit.
\<close>

type_synonym jsstring = "16 word list"

definition js :: "string \<Rightarrow> jsstring" where
  "js s = map of_char s"

definition pipe :: "16 word" where
  "pipe = 0x7C"

definition newline :: "16 word" where
  "newline = 0x0A"

definition slash :: "16 word" where
  "slash = 0x2F"

text \<open>
  \<^verbatim>\<open>s.split(sep)\<close> with a separator of one code unit: the pieces between the
  occurrences of the separator, in order; a string without the separator is the only piece,
  and the empty string gives one empty piece. A code unit other than the separator joins
  the first piece of the rest; the rest always has a first piece, so the last case below
  is never taken.
\<close>

fun js_split :: "'a \<Rightarrow> 'a list \<Rightarrow> 'a list list" where
  "js_split sep [] = [[]]"
| "js_split sep (c # cs) =
     (if c = sep then [] # js_split sep cs
      else (case js_split sep cs of p # ps \<Rightarrow> (c # p) # ps | [] \<Rightarrow> [[c]]))"

text \<open>\<^verbatim>\<open>parts.join(sep)\<close>.\<close>

fun js_join :: "'a list \<Rightarrow> 'a list list \<Rightarrow> 'a list" where
  "js_join sep [] = []"
| "js_join sep [x] = x"
| "js_join sep (x # y # ys) = x @ sep @ js_join sep (y # ys)"

text \<open>
  \<^verbatim>\<open>s.trim()\<close> removes white space and line terminators from both ends: the code units
  U+0009 to U+000D, U+0020, U+00A0, U+1680, U+2000 to U+200A, U+2028, U+2029, U+202F,
  U+205F, U+3000 and U+FEFF.
\<close>

definition is_space :: "16 word \<Rightarrow> bool" where
  "is_space c \<longleftrightarrow>
     (0x09 \<le> c \<and> c \<le> 0x0D) \<or> c = 0x20 \<or> c = 0xA0 \<or> c = 0x1680 \<or>
     (0x2000 \<le> c \<and> c \<le> 0x200A) \<or> c = 0x2028 \<or> c = 0x2029 \<or> c = 0x202F \<or>
     c = 0x205F \<or> c = 0x3000 \<or> c = 0xFEFF"

definition js_trim :: "jsstring \<Rightarrow> jsstring" where
  "js_trim s = rev (dropWhile is_space (rev (dropWhile is_space s)))"

text \<open>\<^verbatim>\<open>hay.includes(needle)\<close>: the needle occurs as a contiguous part of the string.\<close>

fun starts_with :: "'a list \<Rightarrow> 'a list \<Rightarrow> bool" where
  "starts_with [] ys = True"
| "starts_with (x # xs) [] = False"
| "starts_with (x # xs) (y # ys) = (x = y \<and> starts_with xs ys)"

fun js_includes :: "'a list \<Rightarrow> 'a list \<Rightarrow> bool" where
  "js_includes needle [] = starts_with needle []"
| "js_includes needle (c # cs) = (starts_with needle (c # cs) \<or> js_includes needle cs)"

text \<open>
  \<^verbatim>\<open>xs.slice(0, end)\<close> for an integer \<open>end\<close>: a negative end counts from the end of
  the array, and the end is clamped to the array.
\<close>

definition js_slice0 :: "'a list \<Rightarrow> int \<Rightarrow> 'a list" where
  "js_slice0 xs e =
     (let len = int (length xs);
          final = (if e < 0 then max (len + e) 0 else min e len)
      in take (nat final) xs)"

text \<open>
  \<^verbatim>\<open>x || d\<close> where \<open>x\<close> is a string or \<open>undefined\<close> (\<open>None\<close>): the empty string and
  \<open>undefined\<close> are falsy.
\<close>

fun or_default :: "jsstring option \<Rightarrow> jsstring \<Rightarrow> jsstring" where
  "or_default None d = d"
| "or_default (Some s) d = (if s = [] then d else s)"

text \<open>\<^verbatim>\<open>xs[i]\<close>: the element, or \<open>undefined\<close> out of range.\<close>

definition element :: "'a list \<Rightarrow> nat \<Rightarrow> 'a option" where
  "element xs i = (if i < length xs then Some (xs ! i) else None)"

text \<open>A natural number inside a template literal: its decimal digits.\<close>

function show_nat :: "nat \<Rightarrow> jsstring" where
  "show_nat n = (if n < 10 then [of_nat (48 + n)]
                 else show_nat (n div 10) @ [of_nat (48 + n mod 10)])"
  by pat_completeness auto
termination
  by (relation "measure (\<lambda>n. n)") auto

section \<open>Text files\<close>

text \<open>
  A file is a sequence of bytes. \<^verbatim>\<open>new Blob([content], { type: 'text/plain' })\<close> holds the
  string in UTF-8: the string is first read as a sequence of scalar values, a surrogate pair
  giving one value and a surrogate without its partner giving U+FFFD, and each value is
  written in one to four bytes.
\<close>

type_synonym byte = "8 word"

definition is_high :: "16 word \<Rightarrow> bool" where
  "is_high c \<longleftrightarrow> 0xD800 \<le> c \<and> c \<le> 0xDBFF"

definition is_low :: "16 word \<Rightarrow> bool" where
  "is_low c \<longleftrightarrow> 0xDC00 \<le> c \<and> c \<le> 0xDFFF"

definition pair_value :: "16 word \<Rightarrow> 16 word \<Rightarrow> nat" where
  "pair_value c d = 0x10000 + (unat c - 0xD800) * 0x400 + (unat d - 0xDC00)"

fun scalar_values :: "jsstring \<Rightarrow> nat list" where
  "scalar_values [] = []"
| "scalar_values [c] = [if is_high c \<or> is_low c then 0xFFFD else unat c]"
| "scalar_values (c # d # cs) =
     (if is_high c \<and> is_low d then pair_value c d # scalar_values cs
      else (if is_high c \<or> is_low c then 0xFFFD else unat c) # scalar_values (d # cs))"

definition utf8_encode :: "nat \<Rightarrow> byte list" where
  "utf8_encode cp =
     (if cp < 0x80 then [of_nat cp]
      else if cp < 0x800 then [of_nat (0xC0 + cp div 0x40), of_nat (0x80 + cp mod 0x40)]
      else if cp < 0x10000 then
        [of_nat (0xE0 + cp div 0x1000), of_nat (0x80 + cp div 0x40 mod 0x40),
         of_nat (0x80 + cp mod 0x40)]
      else
        [of_nat (0xF0 + cp div 0x40000), of_nat (0x80 + cp div 0x1000 mod 0x40),
         of_nat (0x80 + cp div 0x40 mod 0x40), of_nat (0x80 + cp mod 0x40)])"

definition blob_bytes :: "jsstring \<Rightarrow> byte list" where
  "blob_bytes s = concat (map utf8_encode (scalar_values s))"

text \<open>
  \<^verbatim>\<open>reader.readAsText(file)\<close>, with no encoding given and none in the type of the file,
  decodes the bytes as UTF-8, unless they start with a byte order mark of UTF-16; the byte
  order mark, of either encoding, is left out of the text. The decoders are those of the
  Encoding Standard: \<open>utf8_decode\<close> carries the code point built so far, the number of
  bytes still needed and the bounds for the next byte; a byte that cannot continue a
  sequence ends it with U+FFFD and is read again as the start of a sequence.
  \<open>utf16_decode\<close> carries a pending lead surrogate.
\<close>

function utf8_decode:: "nat \<Rightarrow> nat \<Rightarrow> nat \<Rightarrow> nat \<Rightarrow> byte list \<Rightarrow> nat list" where
  "utf8_decode cp needed lower upper [] = (if needed = 0 then [] else [0xFFFD])"
| "utf8_decode cp needed lower upper (b # bs) =
     (if needed = 0 then
        (if unat b \<le> 0x7F then unat b # utf8_decode 0 0 0x80 0xBF bs
         else if 0xC2 \<le> unat b \<and> unat b \<le> 0xDF then utf8_decode (unat b mod 0x20) 1 0x80 0xBF bs
         else if 0xE0 \<le> unat b \<and> unat b \<le> 0xEF then
           utf8_decode (unat b mod 0x10) 2 (if unat b = 0xE0 then 0xA0 else 0x80)
             (if unat b = 0xED then 0x9F else 0xBF) bs
         else if 0xF0 \<le> unat b \<and> unat b \<le> 0xF4 then
           utf8_decode (unat b mod 8) 3 (if unat b = 0xF0 then 0x90 else 0x80)
             (if unat b = 0xF4 then 0x8F else 0xBF) bs
         else 0xFFFD # utf8_decode 0 0 0x80 0xBF bs)
      else if unat b < lower \<or> upper < unat b then 0xFFFD # utf8_decode 0 0 0x80 0xBF (b # bs)
      else if needed = 1 then (cp * 0x40 + unat b mod 0x40) # utf8_decode 0 0 0x80 0xBF bs
      else utf8_decode (cp * 0x40 + unat b mod 0x40) (needed - 1) 0x80 0xBF bs)"
  by pat_completeness auto
termination
  by (relation "measure (\<lambda>(cp, needed, lower, upper, bs).
        2 * length bs + (if needed = 0 then 0 else 1))") auto

definition code_unit :: "bool \<Rightarrow> byte \<Rightarrow> byte \<Rightarrow> 16 word" where
  "code_unit big b1 b2 =
     (if big then of_nat (unat b1 * 0x100 + unat b2) else of_nat (unat b2 * 0x100 + unat b1))"

function utf16_decode :: "bool \<Rightarrow> 16 word option \<Rightarrow> byte list \<Rightarrow> nat list" where
  "utf16_decode big lead [] = (case lead of None \<Rightarrow> [] | Some l \<Rightarrow> [0xFFFD])"
| "utf16_decode big lead [b] = [0xFFFD]"
| "utf16_decode big lead (b1 # b2 # bs) =
     (case lead of
        Some l \<Rightarrow>
          if is_low (code_unit big b1 b2)
          then pair_value l (code_unit big b1 b2) # utf16_decode big None bs
          else 0xFFFD # utf16_decode big None (b1 # b2 # bs)
      | None \<Rightarrow>
          if is_high (code_unit big b1 b2) then utf16_decode big (Some (code_unit big b1 b2)) bs
          else if is_low (code_unit big b1 b2) then 0xFFFD # utf16_decode big None bs
          else unat (code_unit big b1 b2) # utf16_decode big None bs)"
  by pat_completeness auto
termination
  by (relation "measure (\<lambda>(big, lead, bs).
        2 * length bs + (case lead of None \<Rightarrow> 0 | Some l \<Rightarrow> 1))") auto

definition utf16_units :: "nat \<Rightarrow> jsstring" where
  "utf16_units cp =
     (if cp < 0x10000 then [of_nat cp]
      else [of_nat (0xD800 + (cp - 0x10000) div 0x400), of_nat (0xDC00 + (cp - 0x10000) mod 0x400)])"

definition readAsText :: "byte list \<Rightarrow> jsstring" where
  "readAsText bytes =
     concat (map utf16_units
       (if starts_with [0xEF, 0xBB, 0xBF] bytes then utf8_decode 0 0 0x80 0xBF (drop 3 bytes)
        else if starts_with [0xFE, 0xFF] bytes then utf16_decode True None (drop 2 bytes)
        else if starts_with [0xFF, 0xFE] bytes then utf16_decode False None (drop 2 bytes)
        else utf8_decode 0 0 0x80 0xBF bytes))"

text \<open>
  Scalar values are the code points outside the range of the surrogates. A string is
  well-formed when each of its surrogates is half of a pair.
\<close>

definition scalar :: "nat \<Rightarrow> bool" where
  "scalar cp \<longleftrightarrow> cp < 0x110000 \<and> \<not> (0xD800 \<le> cp \<and> cp \<le> 0xDFFF)"

fun well_formed :: "jsstring \<Rightarrow> bool" where
  "well_formed [] = True"
| "well_formed [c] = (\<not> is_high c \<and> \<not> is_low c)"
| "well_formed (c # d # cs) =
     (if is_high c then is_low d \<and> well_formed cs else \<not> is_low c \<and> well_formed (d # cs))"

section \<open>Numbers of the host language\<close>

text \<open>
  A finite number of the program is a binary64 value, modelled by the rational it denotes.
  The result of an arithmetic operation is the exact result rounded to 53 significant bits,
  ties to even (\<open>fl\<close>). \<open>binade x\<close> is the exponent \<open>e\<close> with \<open>2\<^sup>e \<le> x < 2\<^sup>e\<^sup>+\<^sup>1\<close>.
  The exponent range is not bounded here: the values the program computes with are array
  indices and lengths, below \<open>2\<^sup>3\<^sup>2\<close> and thus exact, their quotients, and percentages,
  all far from overflow and underflow.
\<close>

definition binade :: "rat \<Rightarrow> int" where
  "binade x = (if 1 \<le> x then int (floorlog 2 (nat \<lfloor>x\<rfloor>)) - 1
               else - int (floorlog 2 (nat (\<lceil>1 / x\<rceil> - 1))))"

definition round_ties_even :: "rat \<Rightarrow> int" where
  "round_ties_even r =
     (let f = \<lfloor>r\<rfloor>; h = r - of_int f
      in if h < 1 / 2 then f else if 1 / 2 < h then f + 1 else if even f then f else f + 1)"

definition fl :: "rat \<Rightarrow> rat" where
  "fl x = (if x = 0 then 0
           else let u = 2 powi (binade \<bar>x\<bar> - 52)
                in sgn x * of_int (round_ties_even (\<bar>x\<bar> / u)) * u)"

definition Math_round :: "rat \<Rightarrow> int" where
  "Math_round x = \<lfloor>x + 1 / 2\<rfloor>"

text \<open>
  \<^verbatim>\<open>Math.round(((i + 1) / bulkTargets.length) * 100)\<close>, with \<open>k = i + 1\<close> and \<open>n\<close> the
  length: a division and a multiplication of binary64 values, then the rounding to the
  nearest integer.
\<close>

definition percent :: "nat \<Rightarrow> nat \<Rightarrow> int" where
  "percent k n = Math_round (fl (fl (of_nat k / of_nat n) * 100))"

text \<open>
  For comparison, the percentage in the words of the specification,
  \<open>round(completed / total * 100)\<close>, in exact arithmetic and with halves rounded up.
  \<open>percent_is_half k n\<close> says that the exact percentage lies halfway between two
  integers: \<open>100 k / n + 1 / 2\<close> is an integer.
\<close>

definition spec_round_percent :: "nat \<Rightarrow> nat \<Rightarrow> int" where
  "spec_round_percent k n = \<lfloor>rat_of_nat k / rat_of_nat n * 100 + 1 / 2\<rfloor>"

definition percent_is_half :: "nat \<Rightarrow> nat \<Rightarrow> bool" where
  "percent_is_half k n \<longleftrightarrow> 2 * n dvd 200 * k + n"

text \<open>The literal \<^verbatim>\<open>0.1\<close> of the source: the binary64 value nearest to one tenth.\<close>

definition literal_0_1 :: rat where
  "literal_0_1 = fl (1 / 10)"

section \<open>Data model\<close>

text \<open>
  \<^verbatim>\<open>interface LogEntry { id; url; status: 'success' | 'fail'; message; timestamp }\<close>
  and \<^verbatim>\<open>interface BlogResult { title; url }\<close>. The fields \<open>id\<close> and \<open>url\<close> of a log
  entry are named \<open>entry_id\<close> and \<open>entry_url\<close> here.
\<close>

datatype status = Success | Fail

record LogEntry =
  entry_id :: jsstring
  entry_url :: jsstring
  status :: status
  message :: jsstring
  timestamp :: int

record BlogResult =
  title :: jsstring
  url :: jsstring

text \<open>The \<open>useState\<close> cells of the component that the modelled handlers read or write.\<close>

record app_state =
  error :: "jsstring option"
  success :: "jsstring option"
  searchResults :: "BlogResult list"
  generatedCommentText :: jsstring
  bulkTargets :: "BlogResult list"
  isBulking :: bool
  logs :: "LogEntry list"
  progress :: int

section \<open>Export and import of the target list\<close>

text \<open>
  \<open>exportToTxt\<close> returns the file it offers for download, and \<open>None\<close> when it returns
  before building one:
  \<^verbatim>\<open>
  if (searchResults.length === 0) return;
  const content = searchResults.map(r => `${r.title}|${r.url}`).join('\n');
  const blob = new Blob([content], { type: 'text/plain' });
  \<close>
\<close>

definition exportToTxt :: "app_state \<Rightarrow> byte list option" where
  "exportToTxt s =
     (if length (searchResults s) = 0 then None
      else Some (blob_bytes
             (js_join [newline] (map (\<lambda>r. title r @ [pipe] @ url r) (searchResults s)))))"

text \<open>
  The callback of \<open>lines.map\<close> in \<open>handleFileUpload\<close>:
  \<^verbatim>\<open>
  const [title, url] = line.split('|');
  return { title: title || 'Postingan Blog', url: url || line };
  \<close>
\<close>

definition parse_line :: "jsstring \<Rightarrow> BlogResult" where
  "parse_line line =
     (let parts = js_split pipe line;
          title = element parts 0;
          url = element parts 1
      in \<lparr>title = or_default title (js ''Postingan Blog''), url = or_default url line\<rparr>)"

text \<open>
  \<^verbatim>\<open>
  const lines = text.split('\n').filter(l => l.trim());
  const imported = lines.map(line => ...);
  \<close>
\<close>

definition imported :: "jsstring \<Rightarrow> BlogResult list" where
  "imported text = map parse_line (filter (\<lambda>l. js_trim l \<noteq> []) (js_split newline text))"

text \<open>
  \<open>handleFileUpload\<close>, given the chosen file (\<open>None\<close> when no file was chosen):
  \<^verbatim>\<open>
  reader.onload = (event) => { const text = event.target?.result as string; ... };
  reader.readAsText(file);
  \<close>
  The timer that clears the notice three seconds later is not modelled.
\<close>

definition handleFileUpload :: "byte list option \<Rightarrow> app_state \<Rightarrow> app_state" where
  "handleFileUpload file s =
     (case file of
        None \<Rightarrow> s
      | Some bytes \<Rightarrow>
          (let text = readAsText bytes
           in s\<lparr>bulkTargets := imported text,
                success := Some (js ''Berhasil mengunggah '' @ show_nat (length (imported text))
                                 @ js '' blog.'')\<rparr>))"

section \<open>The Blog Finder\<close>

text \<open>
  A grounding chunk of the service's answer: \<^verbatim>\<open>chunk.web?.title\<close> and
  \<^verbatim>\<open>chunk.web?.uri\<close>, each possibly absent, as is \<open>web\<close> itself.
\<close>

record web_source =
  web_title :: "jsstring option"
  uri :: "jsstring option"

type_synonym chunk = "web_source option"

text \<open>
  The service is a parameter: for the keyword and the count that the prompt is built from,
  it rejects (\<open>None\<close>) or answers with \<open>groundingChunks\<close>, which may be \<open>undefined\<close>
  (\<open>Some None\<close>).
\<close>

type_synonym service = "jsstring \<Rightarrow> int \<Rightarrow> chunk list option option"

definition is_digit :: "16 word \<Rightarrow> bool" where
  "is_digit c \<longleftrightarrow> 0x30 \<le> c \<and> c \<le> 0x39"

text \<open>The regular expression \<^verbatim>\<open>/\/\d{4}\/\d{2}\//\<close> matched at the start of a string.\<close>

fun date_segment_at :: "jsstring \<Rightarrow> bool" where
  "date_segment_at (a # b # c # d # e # f # g # h # i # rest) =
     (a = slash \<and> is_digit b \<and> is_digit c \<and> is_digit d \<and> is_digit e \<and>
      f = slash \<and> is_digit g \<and> is_digit h \<and> i = slash)"
| "date_segment_at s = False"

text \<open>\<^verbatim>\<open>/\/\d{4}\/\d{2}\//.test(s)\<close>: the expression matches somewhere in the string.\<close>

fun date_segment_test :: "jsstring \<Rightarrow> bool" where
  "date_segment_test [] = False"
| "date_segment_test (c # cs) = (date_segment_at (c # cs) \<or> date_segment_test cs)"

text \<open>
  \<^verbatim>\<open>item.url.includes('.html') || /\/\d{4}\/\d{2}\//.test(item.url)\<close>
\<close>

definition article_like :: "BlogResult \<Rightarrow> bool" where
  "article_like item \<longleftrightarrow> js_includes (js ''.html'') (url item) \<or> date_segment_test (url item)"

text \<open>
  \<^verbatim>\<open>
  chunks?.map(chunk => ({ title: chunk.web?.title || "Judul Artikel",
                          url: chunk.web?.uri || "" }))
  \<close>
\<close>

definition chunk_item :: "chunk \<Rightarrow> BlogResult" where
  "chunk_item ch =
     \<lparr>title = or_default (case ch of None \<Rightarrow> None | Some w \<Rightarrow> web_title w) (js ''Judul Artikel''),
      url = or_default (case ch of None \<Rightarrow> None | Some w \<Rightarrow> uri w) []\<rparr>"

text \<open>
  The \<open>results\<close> of \<open>searchBlogs\<close>, in the version of the service module that filters
  the candidates (the source also holds a version that maps and slices without the filter);
  \<open>None\<close> when the call to the service rejects.
  \<^verbatim>\<open>
  const searchResults = chunks?.map(...).filter(item => ...).slice(0, count) || [];
  \<close>
  The \<open>count\<close> comes from \<open>parseInt\<close> of a number field and is an integer (or \<open>NaN\<close>
  for an empty field, which \<open>slice\<close> takes for 0). The text of the answer, returned along
  with the results, is left out.
\<close>

definition searchBlogs :: "service \<Rightarrow> jsstring \<Rightarrow> int \<Rightarrow> BlogResult list option" where
  "searchBlogs ai keyword count =
     (case ai keyword count of
        None \<Rightarrow> None
      | Some chunks \<Rightarrow>
          Some (case chunks of
                  None \<Rightarrow> []
                | Some cs \<Rightarrow> js_slice0 (filter article_like (map chunk_item cs)) count))"

section \<open>The Bulk Runner\<close>

text \<open>
  What one iteration of the loop reads from its environment: the value of the first
  \<^verbatim>\<open>Math.random()\<close>, the string \<^verbatim>\<open>Math.random().toString(36).substring(7)\<close> and
  \<^verbatim>\<open>Date.now()\<close>.
\<close>

record draw =
  outcome :: rat
  fresh_id :: jsstring
  now :: int

text \<open>
  The log entry built in one iteration, from what the iteration read and its target:
  \<^verbatim>\<open>
  const isSuccess = Math.random() > 0.1; // Simulasi sukses 90%
  const newLog: LogEntry = {
    id: Math.random().toString(36).substring(7),
    url: target.url,
    status: isSuccess ? 'success' : 'fail',
    message: isSuccess ? 'Komentar berhasil disiapkan (Siap Paste)'
                       : 'Gagal mengakses kolom komentar',
    timestamp: Date.now()
  };
  \<close>
\<close>

definition newLog :: "draw \<Rightarrow> BlogResult \<Rightarrow> LogEntry" where
  "newLog d target =
     (let isSuccess = (literal_0_1 < outcome d)
      in \<lparr>entry_id = fresh_id d,
          entry_url = url target,
          status = (if isSuccess then Success else Fail),
          message = (if isSuccess then js ''Komentar berhasil disiapkan (Siap Paste)''
                     else js ''Gagal mengakses kolom komentar''),
          timestamp = now d\<rparr>)"

text \<open>
  The body of the loop, for the index \<open>i\<close>. The wait of 800 ms before it is not modelled.
  \<^verbatim>\<open>
  const target = bulkTargets[i];
  ...
  setLogs(prev => [newLog, ...prev]);
  setProgress(Math.round(((i + 1) / bulkTargets.length) * 100));
  \<close>
\<close>

definition bulk_step :: "(nat \<Rightarrow> draw) \<Rightarrow> BlogResult list \<Rightarrow> nat \<Rightarrow> app_state \<Rightarrow> app_state" where
  "bulk_step env targets i s =
     (let target = targets ! i
      in s\<lparr>logs := newLog (env i) target # logs s,
           progress := percent (i + 1) (length targets)\<rparr>)"

text \<open>\<^verbatim>\<open>for (let i = 0; i < bulkTargets.length; i++) { ... }\<close>, from the index \<open>i\<close> on.\<close>

function bulk_loop :: "(nat \<Rightarrow> draw) \<Rightarrow> BlogResult list \<Rightarrow> nat \<Rightarrow> app_state \<Rightarrow> app_state" where
  "bulk_loop env targets i s =
     (if i < length targets then bulk_loop env targets (Suc i) (bulk_step env targets i s)
      else s)"
  by pat_completeness auto
termination
  by (relation "measure (\<lambda>(env, targets, i, s). length targets - i)") auto

text \<open>The states that the loop passes through, one after each iteration, in order.\<close>

function bulk_updates :: "(nat \<Rightarrow> draw) \<Rightarrow> BlogResult list \<Rightarrow> nat \<Rightarrow> app_state \<Rightarrow> app_state list" where
  "bulk_updates env targets i s =
     (if i < length targets
      then bulk_step env targets i s # bulk_updates env targets (Suc i) (bulk_step env targets i s)
      else [])"
  by pat_completeness auto
termination
  by (relation "measure (\<lambda>(env, targets, i, s). length targets - i)") auto

text \<open>
  \<open>startBulk\<close>: the two checks, the reset of the run state, the loop, and the end of the
  run.
\<close>

definition startBulk :: "(nat \<Rightarrow> draw) \<Rightarrow> app_state \<Rightarrow> app_state" where
  "startBulk env s =
     (if length (bulkTargets s) = 0 then s\<lparr>error := Some (js ''Daftar target kosong.'')\<rparr>
      else if generatedCommentText s = []
        then s\<lparr>error := Some (js ''Teks komentar belum diatur di Tab 2.'')\<rparr>
      else (bulk_loop env (bulkTargets s) 0 (s\<lparr>isBulking := True, logs := [], progress := 0\<rparr>))
             \<lparr>isBulking := False\<rparr>)"

text \<open>The states shown during a run of \<open>startBulk\<close> that passes both checks.\<close>

definition run_updates :: "(nat \<Rightarrow> draw) \<Rightarrow> app_state \<Rightarrow> app_state list" where
  "run_updates env s =
     bulk_updates env (bulkTargets s) 0 (s\<lparr>isBulking := True, logs := [], progress := 0\<rparr>)"

text \<open>
  \<open>startBulk\<close> above is a run from its start to its end. In the program the function is
  asynchronous: a call runs up to the first wait and returns, and each later part runs when
  its timer fires, so that other events can come in between, and the parts of two calls
  could alternate. A call that waits is known by what its closure holds: the target list it
  was started with and its loop index.
\<close>

record run =
  run_targets :: "BlogResult list"
  run_index :: nat

record system =
  cells :: app_state
  in_flight :: "run list"

text \<open>
  The events: a click on the button that starts a run, the timer of the waiting call
  number \<open>k\<close> (with what the iteration then reads), the choice of a file to upload, and
  any other handler of the component. Only \<open>startBulk\<close> calls \<^verbatim>\<open>setIsBulking\<close>,
  \<^verbatim>\<open>setLogs\<close> and \<^verbatim>\<open>setProgress\<close>; another handler may change the other cells in any
  way.
\<close>

datatype event =
  Click | Timer nat draw | Upload "byte list option" | Other "app_state \<Rightarrow> app_state"

text \<open>
  A call of \<open>startBulk\<close> up to its first wait: the two checks, the reset of the run state,
  and the entry into the loop, whose condition holds since the list is not empty.
\<close>

definition begin_bulk :: "system \<Rightarrow> system" where
  "begin_bulk sys =
     (let s = cells sys
      in if length (bulkTargets s) = 0
         then sys\<lparr>cells := s\<lparr>error := Some (js ''Daftar target kosong.'')\<rparr>\<rparr>
         else if generatedCommentText s = []
         then sys\<lparr>cells := s\<lparr>error := Some (js ''Teks komentar belum diatur di Tab 2.'')\<rparr>\<rparr>
         else sys\<lparr>cells := s\<lparr>isBulking := True, logs := [], progress := 0\<rparr>,
                  in_flight := in_flight sys @ [\<lparr>run_targets = bulkTargets s, run_index = 0\<rparr>]\<rparr>)"

text \<open>
  The waiting call number \<open>k\<close> goes on after its wait: the rest of the body of the loop for
  its index, then either the next wait or the end of the loop and
  \<^verbatim>\<open>setIsBulking(false)\<close>.
\<close>

definition resume :: "nat \<Rightarrow> draw \<Rightarrow> system \<Rightarrow> system" where
  "resume k d sys =
     (if k < length (in_flight sys) then
        (let r = in_flight sys ! k;
             s = bulk_step (\<lambda>i. d) (run_targets r) (run_index r) (cells sys)
         in if Suc (run_index r) < length (run_targets r)
            then sys\<lparr>cells := s, in_flight := (in_flight sys)[k := r\<lparr>run_index := Suc (run_index r)\<rparr>]\<rparr>
            else sys\<lparr>cells := s\<lparr>isBulking := False\<rparr>,
                     in_flight := take k (in_flight sys) @ drop (Suc k) (in_flight sys)\<rparr>)
      else sys)"

text \<open>
  One event. The button is
  \<^verbatim>\<open><button onClick={startBulk} disabled={isBulking || bulkTargets.length === 0}>\<close>,
  and a disabled button does not call its handler.
\<close>

fun step :: "event \<Rightarrow> system \<Rightarrow> system" where
  "step Click sys =
     (if isBulking (cells sys) \<or> length (bulkTargets (cells sys)) = 0 then sys
      else begin_bulk sys)"
| "step (Timer k d) sys = resume k d sys"
| "step (Upload file) sys = sys\<lparr>cells := handleFileUpload file (cells sys)\<rparr>"
| "step (Other handler) sys =
     sys\<lparr>cells := (handler (cells sys))
            \<lparr>isBulking := isBulking (cells sys), logs := logs (cells sys),
             progress := progress (cells sys)\<rparr>\<rparr>"

definition run_events :: "event list \<Rightarrow> system \<Rightarrow> system" where
  "run_events es sys = fold step es sys"

text \<open>The program at rest: no call of \<open>startBulk\<close> waits.\<close>

definition at_rest :: "app_state \<Rightarrow> system" where
  "at_rest s = \<lparr>cells = s, in_flight = []\<rparr>"

text \<open>
  The states in which at most one call is in flight, and \<open>isBulking\<close> says whether one is.
\<close>

definition one_run :: "system \<Rightarrow> bool" where
  "one_run sys \<longleftrightarrow>
     (isBulking (cells sys) \<longleftrightarrow> in_flight sys \<noteq> []) \<and> length (in_flight sys) \<le> 1"

section \<open>Sample inputs\<close>

text \<open>Concrete states and environments on which the theorems below are instantiated.\<close>

definition post :: "string \<Rightarrow> string \<Rightarrow> BlogResult" where
  "post t u = \<lparr>title = js t, url = js u\<rparr>"

definition sample_state :: "BlogResult list \<Rightarrow> string \<Rightarrow> app_state" where
  "sample_state targets comment =
     \<lparr>error = None, success = None, searchResults = [], generatedCommentText = js comment,
      bulkTargets = targets, isBulking = False, logs = [], progress = 0\<rparr>"

definition sample_env :: "nat \<Rightarrow> draw" where
  "sample_env i = \<lparr>outcome = (if even i then 1 / 2 else 1 / 16), fresh_id = js ''k3x9'',
                    now = 1000 + 800 * int i\<rparr>"

definition sample_service :: service where
  "sample_service keyword count =
     Some (Some [Some \<lparr>web_title = Some (js ''Post A''),
                        uri = Some (js ''https://a.blogspot.com/2024/01/a.html'')\<rparr>,
                 Some \<lparr>web_title = Some (js ''Post A''),
                        uri = Some (js ''https://a.blogspot.com/2024/01/a.html'')\<rparr>])"

definition finder_state :: "BlogResult list \<Rightarrow> app_state" where
  "finder_state results =
     \<lparr>error = None, success = None, searchResults = results, generatedCommentText = [],
      bulkTargets = [], isBulking = False, logs = [], progress = 0\<rparr>"

section \<open>Properties of the number model\<close>

lemma binade_ge1:
  assumes "1 \<le> x"
  shows "2 powi binade x \<le> x" and "x < 2 powi (binade x + 1)"
proof -
  define n where "n = nat \<lfloor>x\<rfloor>"
  define L where "L = floorlog 2 n"
  have n: "0 < n" using assms by (simp add: n_def)
  have b: "2 ^ (L - 1) \<le> n" "n < 2 ^ L"
    using floorlog_bounds [of n 2] n by (simp_all add: L_def)
  have L: "0 < L" using b n by (cases L) auto
  have e: "binade x = int (L - 1)" "binade x + 1 = int L"
    using assms L by (simp_all add: binade_def n_def L_def)
  have fx: "rat_of_nat n = of_int \<lfloor>x\<rfloor>" using assms by (simp add: n_def)
  have "(2::rat) ^ (L - 1) \<le> of_nat n" using b(1) by (metis of_nat_le_iff of_nat_numeral of_nat_power)
  also have "\<dots> \<le> x" by (simp add: fx)
  finally show "2 powi binade x \<le> x" by (simp add: e)
  have "x < of_int \<lfloor>x\<rfloor> + 1" by linarith
  also have "\<dots> = rat_of_nat (Suc n)" by (simp add: fx)
  also have "\<dots> \<le> rat_of_nat (2 ^ L)" using b(2) by (simp only: of_nat_le_iff)
  finally show "x < 2 powi (binade x + 1)" unfolding e(2) by simp
qed

lemma binade_lt1:
  assumes "0 < x" "x < 1"
  shows "2 powi binade x \<le> x" and "x < 2 powi (binade x + 1)"
proof -
  define m where "m = \<lceil>1 / x\<rceil>"
  define n where "n = nat (m - 1)"
  define k where "k = floorlog 2 n"
  have inv: "1 < 1 / x" using assms by simp
  have m: "2 \<le> m" using inv unfolding m_def by linarith
  have n: "0 < n" "int n = m - 1" using m by (simp_all add: n_def)
  have b: "2 ^ (k - 1) \<le> n" "n < 2 ^ k"
    using floorlog_bounds [of n 2] n by (simp_all add: k_def)
  have k: "0 < k" using b n by (cases k) auto
  have e: "binade x = - int k"
    using assms by (simp add: binade_def n_def k_def m_def)
  have up: "1 / x \<le> of_int m" unfolding m_def by linarith
  have lo: "rat_of_int (m - 1) < 1 / x" unfolding m_def by linarith
  have "rat_of_int m = rat_of_nat (Suc n)" using n by simp
  also have "\<dots> \<le> rat_of_nat (2 ^ k)" using b(2) by (simp only: of_nat_le_iff)
  also have "\<dots> = 2 ^ k" by simp
  finally have "1 / x \<le> 2 ^ k" using up by linarith
  then have "1 / 2 ^ k \<le> x" using assms by (simp add: field_simps)
  then show "2 powi binade x \<le> x" by (simp add: e power_int_minus_divide)
  have "(2::rat) ^ (k - 1) \<le> of_nat n" using b(1) by (metis of_nat_le_iff of_nat_numeral of_nat_power)
  also have "\<dots> = rat_of_int (m - 1)" using n by (metis of_int_of_nat_eq)
  finally have "2 ^ (k - 1) < 1 / x" using lo by simp
  then have "x < 1 / 2 ^ (k - 1)" using assms by (simp add: field_simps)
  moreover have "binade x + 1 = - int (k - 1)" using k by (simp add: e)
  ultimately show "x < 2 powi (binade x + 1)" by (simp add: power_int_minus_divide)
qed

lemma binade_bounds:
  assumes "0 < x"
  shows "2 powi binade x \<le> x" and "x < 2 powi (binade x + 1)"
  using binade_ge1 [of x] binade_lt1 [of x] assms by (cases "1 \<le> x"; simp)+

lemma binade_mono:
  assumes "0 < x" "x \<le> y"
  shows "binade x \<le> binade y"
proof (rule ccontr)
  assume "\<not> binade x \<le> binade y"
  then have "binade y + 1 \<le> binade x" by simp
  then have "(2::rat) powi (binade y + 1) \<le> 2 powi binade x"
    by (intro power_int_increasing) simp_all
  moreover have "y < 2 powi (binade y + 1)" using binade_bounds(2) [of y] assms by simp
  moreover have "2 powi binade x \<le> x" using binade_bounds(1) [of x] assms by simp
  ultimately show False using assms by simp
qed

lemma round_ties_even_mono:
  assumes "x \<le> y"
  shows "round_ties_even x \<le> round_ties_even y"
proof (cases "\<lfloor>x\<rfloor> = \<lfloor>y\<rfloor>")
  case True
  then show ?thesis using assms by (auto simp: round_ties_even_def Let_def)
next
  case False
  then have "\<lfloor>x\<rfloor> + 1 \<le> \<lfloor>y\<rfloor>" using floor_mono [OF assms] by simp
  moreover have "round_ties_even x \<le> \<lfloor>x\<rfloor> + 1" by (simp add: round_ties_even_def Let_def)
  moreover have "\<lfloor>y\<rfloor> \<le> round_ties_even y" by (simp add: round_ties_even_def Let_def)
  ultimately show ?thesis by simp
qed

lemma round_ties_even_of_int [simp]: "round_ties_even (of_int n) = n"
  by (simp add: round_ties_even_def)

lemma fl_pos_range:
  assumes "0 < x"
  shows "2 powi binade x \<le> fl x" and "fl x \<le> 2 powi (binade x + 1)"
proof -
  define u :: rat where "u = 2 powi (binade x - 52)"
  have u: "0 < u" by (simp add: u_def)
  have flx: "fl x = of_int (round_ties_even (x / u)) * u"
    using assms by (simp add: fl_def u_def Let_def)
  have lo: "2 powi binade x = of_int (2 ^ 52) * u"
    by (simp add: u_def power_int_diff)
  have hi: "2 powi (binade x + 1) = of_int (2 ^ 53) * u"
    by (simp add: u_def power_int_diff power_int_add)
  have "of_int (2 ^ 52) * u \<le> x" using binade_bounds(1) [OF assms] unfolding lo .
  then have "of_int (2 ^ 52) \<le> x / u" using u by (simp add: field_simps)
  from round_ties_even_mono [OF this] have "2 ^ 52 \<le> round_ties_even (x / u)"
    by (simp only: round_ties_even_of_int)
  then have "rat_of_int (2 ^ 52) \<le> of_int (round_ties_even (x / u))" by (simp only: of_int_le_iff)
  then show "2 powi binade x \<le> fl x" using u unfolding lo flx by (simp only: mult_le_cancel_right) simp
  have "x < of_int (2 ^ 53) * u" using binade_bounds(2) [OF assms] unfolding hi .
  then have "x / u \<le> of_int (2 ^ 53)" using u by (simp add: field_simps)
  from round_ties_even_mono [OF this] have "round_ties_even (x / u) \<le> 2 ^ 53"
    by (simp only: round_ties_even_of_int)
  then have "rat_of_int (round_ties_even (x / u)) \<le> of_int (2 ^ 53)" by (simp only: of_int_le_iff)
  then show "fl x \<le> 2 powi (binade x + 1)" using u unfolding hi flx by (simp only: mult_le_cancel_right) simp
qed

lemma fl_mono:
  assumes "0 < x" "x \<le> y"
  shows "fl x \<le> fl y"
proof (cases "binade x = binade y")
  case True
  define u :: rat where "u = 2 powi (binade x - 52)"
  have u: "0 < u" by (simp add: u_def)
  have "x / u \<le> y / u" using assms u by (simp add: divide_right_mono)
  from round_ties_even_mono [OF this]
  have "rat_of_int (round_ties_even (x / u)) * u \<le> of_int (round_ties_even (y / u)) * u"
    using u by simp
  then show ?thesis using assms True by (simp add: fl_def u_def Let_def)
next
  case False
  then have "binade x + 1 \<le> binade y" using binade_mono [OF assms] by simp
  then have "(2::rat) powi (binade x + 1) \<le> 2 powi binade y"
    by (intro power_int_increasing) simp_all
  moreover have "fl x \<le> 2 powi (binade x + 1)" using fl_pos_range(2) [of x] assms by simp
  moreover have "2 powi binade y \<le> fl y" using fl_pos_range(1) [of y] assms by simp
  ultimately show ?thesis by simp
qed

lemma fl_pos: "0 < x \<Longrightarrow> 0 < fl x"
  using fl_pos_range(1) [of x] zero_less_power_int [of "2::rat" "binade x"] by linarith

lemma Math_round_mono: "x \<le> y \<Longrightarrow> Math_round x \<le> Math_round y"
  by (simp add: Math_round_def floor_mono)

section \<open>Properties of the loop\<close>

declare bulk_loop.simps [simp del] bulk_updates.simps [simp del]

lemma bulk_step_logs [simp]:
  "logs (bulk_step env ts i s) = newLog (env i) (ts ! i) # logs s"
  by (simp add: bulk_step_def)

lemma bulk_step_progress [simp]:
  "progress (bulk_step env ts i s) = percent (i + 1) (length ts)"
  by (simp add: bulk_step_def)

lemma bulk_step_others [simp]:
  "isBulking (bulk_step env ts i s) = isBulking s"
  "error (bulk_step env ts i s) = error s"
  "success (bulk_step env ts i s) = success s"
  "searchResults (bulk_step env ts i s) = searchResults s"
  "generatedCommentText (bulk_step env ts i s) = generatedCommentText s"
  "bulkTargets (bulk_step env ts i s) = bulkTargets s"
  by (simp_all add: bulk_step_def)

lemma bulk_loop_logs:
  "logs (bulk_loop env ts i s) = rev (map (\<lambda>j. newLog (env j) (ts ! j)) [i..<length ts]) @ logs s"
proof (induction env ts i s rule: bulk_loop.induct)
  case (1 env ts i s)
  show ?case
  proof (cases "i < length ts")
    case True
    then show ?thesis
      using "1.IH" by (subst bulk_loop.simps) (simp add: upt_conv_Cons)
  next
    case False
    then show ?thesis by (subst bulk_loop.simps) simp
  qed
qed

lemma bulk_loop_progress:
  "i < length ts \<Longrightarrow> progress (bulk_loop env ts i s) = percent (length ts) (length ts)"
proof (induction env ts i s rule: bulk_loop.induct)
  case (1 env ts i s)
  show ?case
  proof (cases "Suc i < length ts")
    case True
    then show ?thesis
      using 1 by (subst bulk_loop.simps) simp
  next
    case False
    with "1.prems" have "Suc i = length ts" by simp
    then show ?thesis
      using "1.prems" by (subst bulk_loop.simps, subst bulk_loop.simps) simp
  qed
qed

lemma bulk_updates_progress:
  "map progress (bulk_updates env ts i s) = map (\<lambda>j. percent (j + 1) (length ts)) [i..<length ts]"
proof (induction env ts i s rule: bulk_updates.induct)
  case (1 env ts i s)
  show ?case
  proof (cases "i < length ts")
    case True
    then show ?thesis
      using "1.IH" by (subst bulk_updates.simps) (simp add: upt_conv_Cons)
  next
    case False
    then show ?thesis by (subst bulk_updates.simps) simp
  qed
qed

lemma bulk_loop_last:
  "bulk_loop env ts i s = last (s # bulk_updates env ts i s)"
proof (induction env ts i s rule: bulk_loop.induct)
  case (1 env ts i s)
  show ?case
  proof (cases "i < length ts")
    case True
    then show ?thesis
      using "1.IH" by (subst bulk_loop.simps, subst bulk_updates.simps) simp
  next
    case False
    then show ?thesis by (subst bulk_loop.simps, subst bulk_updates.simps) simp
  qed
qed

lemma fl_1: "fl 1 = 1" by code_simp
lemma fl_100: "fl 100 = 100" by code_simp

lemma Math_round_100: "Math_round 100 = 100" by code_simp

lemma percent_full: "0 < n \<Longrightarrow> percent n n = 100"
  by (simp add: percent_def fl_1 fl_100 Math_round_100)

lemma percent_mono:
  assumes "0 < k" "k \<le> l" "0 < n"
  shows "percent k n \<le> percent l n"
proof -
  have q: "(0::rat) < of_nat k / of_nat n" "rat_of_nat k / of_nat n \<le> of_nat l / of_nat n"
    using assms by (simp_all add: divide_right_mono)
  have "fl (of_nat k / of_nat n) * 100 \<le> fl (of_nat l / of_nat n) * 100"
    using fl_mono [OF q] by simp
  moreover have "0 < fl (of_nat k / of_nat n) * 100" using fl_pos [OF q(1)] by simp
  ultimately have "fl (fl (of_nat k / of_nat n) * 100) \<le> fl (fl (of_nat l / of_nat n) * 100)"
    by (rule fl_mono [rotated])
  then show ?thesis unfolding percent_def by (rule Math_round_mono)
qed

lemma percent_le:
  assumes "0 < k" "0 < n" "0 < m" "rat_of_nat k / of_nat n \<le> of_nat l / of_nat m"
  shows "percent k n \<le> percent l m"
proof -
  have q: "(0::rat) < of_nat k / of_nat n" using assms by simp
  have "fl (of_nat k / of_nat n) * 100 \<le> fl (of_nat l / of_nat m) * 100"
    using fl_mono [OF q assms(4)] by simp
  moreover have "0 < fl (of_nat k / of_nat n) * 100" using fl_pos [OF q] by simp
  ultimately have "fl (fl (of_nat k / of_nat n) * 100) \<le> fl (fl (of_nat l / of_nat m) * 100)"
    by (rule fl_mono [rotated])
  then show ?thesis unfolding percent_def by (rule Math_round_mono)
qed

lemma percent_198_199: "percent 198 199 = 99" by code_simp
lemma percent_199_200: "percent 199 200 = 100" by code_simp
lemma percent_200_201: "percent 200 201 = 100" by code_simp

lemma percent_below_100:
  assumes "0 < k" "k < n" "n \<le> 199"
  shows "percent k n < 100"
proof -
  have "k * 199 \<le> 198 * n" using assms by simp
  then have "rat_of_nat (k * 199) \<le> rat_of_nat (198 * n)" by (simp only: of_nat_le_iff)
  then have "rat_of_nat k / of_nat n \<le> of_nat 198 / of_nat 199"
    using assms by (simp add: field_simps)
  from percent_le [OF assms(1) _ _ this] assms have "percent k n \<le> percent 198 199" by simp
  then show ?thesis by (simp add: percent_198_199)
qed

lemma percent_last_but_one:
  assumes "200 \<le> n"
  shows "percent (n - 1) n = 100"
proof -
  have "199 * n \<le> (n - 1) * 200" using assms by simp
  then have "rat_of_nat (199 * n) \<le> rat_of_nat ((n - 1) * 200)" by (simp only: of_nat_le_iff)
  then have "rat_of_nat 199 / of_nat 200 \<le> of_nat (n - 1) / of_nat n"
    using assms by (simp add: field_simps)
  from percent_le [OF _ _ _ this] assms have "percent 199 200 \<le> percent (n - 1) n" by simp
  moreover have "percent (n - 1) n \<le> percent n n"
    using assms by (intro percent_mono) simp_all
  ultimately show ?thesis using assms by (simp add: percent_199_200 percent_full)
qed

lemma round_ties_even_near: "\<bar>rat_of_int (round_ties_even r) - r\<bar> \<le> 1 / 2"
proof -
  have "rat_of_int \<lfloor>r\<rfloor> \<le> r" "r < rat_of_int \<lfloor>r\<rfloor> + 1" by linarith+
  then show ?thesis by (auto simp: round_ties_even_def Let_def abs_le_iff)
qed

lemma fl_error:
  assumes "0 < x"
  shows "\<bar>fl x - x\<bar> \<le> x / 2 ^ 53"
proof -
  define u :: rat where "u = 2 powi (binade x - 52)"
  have u: "0 < u" by (simp add: u_def)
  have flx: "fl x = of_int (round_ties_even (x / u)) * u"
    using assms by (simp add: fl_def u_def Let_def)
  have "2 powi binade x = 2 ^ 52 * u" by (simp add: u_def power_int_diff)
  with binade_bounds(1) [OF assms] have ux: "2 ^ 52 * u \<le> x" by simp
  have "fl x - x = (of_int (round_ties_even (x / u)) - x / u) * u"
    using u by (simp add: flx field_simps)
  then have "\<bar>fl x - x\<bar> = \<bar>of_int (round_ties_even (x / u)) - x / u\<bar> * u"
    using u by (simp add: abs_mult)
  also have "\<dots> \<le> 1 / 2 * u"
    using round_ties_even_near [of "x / u"] u by (intro mult_right_mono) simp_all
  also have "\<dots> \<le> x / 2 ^ 53" using ux by simp
  finally show ?thesis .
qed

lemma percent_near:
  assumes "0 < k" "k \<le> n"
  shows "\<bar>fl (fl (rat_of_nat k / of_nat n) * 100) - rat_of_nat k / of_nat n * 100\<bar> \<le> 201 / 2 ^ 53"
proof -
  define q where "q = rat_of_nat k / of_nat n"
  define e :: rat where "e = 1 / 2 ^ 53"
  have e: "0 < e" "e \<le> 1 / 100" by (simp_all add: e_def)
  have q: "0 < q" "q \<le> 1" using assms by (simp_all add: q_def)
  have "q / 2 ^ 53 = q * e" by (simp add: e_def)
  also have "\<dots> \<le> 1 * e" using q(2) e(1) by (intro mult_right_mono) simp_all
  finally have e1: "\<bar>fl q - q\<bar> \<le> e" using fl_error [OF q(1)] by linarith
  have p: "0 < fl q * 100" using fl_pos [OF q(1)] by simp
  have p101: "fl q * 100 \<le> 101" using e1 q(2) e(2) by linarith
  have "fl q * 100 / 2 ^ 53 = fl q * 100 * e" by (simp add: e_def)
  also have "\<dots> \<le> 101 * e" using p101 e(1) by (intro mult_right_mono) simp_all
  finally have e2: "\<bar>fl (fl q * 100) - fl q * 100\<bar> \<le> 101 * e" using fl_error [OF p] by linarith
  have "\<bar>fl (fl q * 100) - q * 100\<bar> \<le> 201 * e" using e1 e2 by linarith
  then show ?thesis by (simp add: q_def e_def)
qed

lemma percent_exact:
  assumes "0 < k" "k \<le> n" "n < 2 ^ 32" "\<not> percent_is_half k n"
  shows "percent k n = spec_round_percent k n"
proof -
  define x where "x = rat_of_nat k / of_nat n * 100"
  define y where "y = fl (fl (rat_of_nat k / of_nat n) * 100)"
  define m where "m = (200 * k + n) div (2 * n)"
  define r where "r = (200 * k + n) mod (2 * n)"
  define d where "d = 1 / rat_of_nat (2 * n)"
  define e :: rat where "e = 201 / 2 ^ 53"
  have n: "0 < n" using assms by simp
  have r: "0 < r" "r < 2 * n" using assms(4) n by (auto simp: r_def percent_is_half_def dvd_eq_mod_eq_0)
  have "200 * k + n = 2 * n * m + r" by (simp add: m_def r_def)
  then have "rat_of_nat (200 * k + n) = of_nat (2 * n * m + r)" by simp
  then have xm: "x + 1 / 2 = of_nat m + of_nat r * d"
    using n by (simp add: x_def d_def field_simps)
  have d: "0 < d" using n by (simp add: d_def)
  have "1 * d \<le> of_nat r * d" using r(1) d by (intro mult_right_mono) simp_all
  moreover have "rat_of_nat r * d \<le> (of_nat (2 * n) - 1) * d"
  proof -
    have "Suc r \<le> 2 * n" using r(2) by simp
    then have "rat_of_nat (Suc r) \<le> of_nat (2 * n)" by (simp only: of_nat_le_iff)
    then have "rat_of_nat r \<le> of_nat (2 * n) - 1" by simp
    then show ?thesis using d by (intro mult_right_mono) simp_all
  qed
  moreover have "(rat_of_nat (2 * n) - 1) * d = 1 - d" using n by (simp add: d_def field_simps)
  ultimately have x: "of_nat m + d \<le> x + 1 / 2" "x + 1 / 2 \<le> of_nat m + 1 - d"
    unfolding xm by linarith+
  have "2 * n < 2 * 2 ^ 32" using assms(3) by simp
  then have "rat_of_nat (2 * n) < of_nat (2 * 2 ^ 32)" by (simp only: of_nat_less_iff)
  then have "1 / rat_of_nat (2 * 2 ^ 32) < 1 / rat_of_nat (2 * n)"
    using n by (intro divide_strict_left_mono) simp_all
  moreover have "e < 1 / rat_of_nat (2 * 2 ^ 32)" by (simp add: e_def)
  ultimately have eps: "e < d" unfolding d_def by (rule less_trans [rotated])
  have "\<bar>y - x\<bar> \<le> e" unfolding x_def y_def e_def using assms(1,2) by (rule percent_near)
  then have yx: "x - e \<le> y" "y \<le> x + e" by linarith+
  have mm: "rat_of_int (int m) = of_nat m" by simp
  have "rat_of_int (int m) \<le> y + 1 / 2" "y + 1 / 2 < rat_of_int (int m) + 1"
    unfolding mm using x yx eps by linarith+
  then have fy: "\<lfloor>y + 1 / 2\<rfloor> = int m" by (rule floor_unique)
  have "rat_of_int (int m) \<le> x + 1 / 2" "x + 1 / 2 < rat_of_int (int m) + 1"
    unfolding mm using x d by linarith+
  then have fx: "\<lfloor>x + 1 / 2\<rfloor> = int m" by (rule floor_unique)
  show ?thesis
    unfolding percent_def spec_round_percent_def Math_round_def x_def [symmetric] y_def [symmetric]
    by (simp only: fx fy)
qed

lemma percent_23_40: "percent 23 40 = 57" by code_simp

lemma spec_round_percent_23_40: "spec_round_percent 23 40 = 58" by code_simp

lemma startBulk_run:
  assumes "bulkTargets s \<noteq> []" "generatedCommentText s \<noteq> []"
  shows "startBulk env s =
           (bulk_loop env (bulkTargets s) 0 (s\<lparr>isBulking := True, logs := [], progress := 0\<rparr>))
             \<lparr>isBulking := False\<rparr>"
  using assms by (simp add: startBulk_def)

lemma run_updates_progress:
  "map progress (run_updates env s) =
     map (\<lambda>i. percent (i + 1) (length (bulkTargets s))) [0..<length (bulkTargets s)]"
  by (simp add: run_updates_def bulk_updates_progress)

lemma run_updates_length: "length (run_updates env s) = length (bulkTargets s)"
  using arg_cong [OF run_updates_progress, of length env s] by simp

lemma run_updates_nth_progress:
  "i < length (bulkTargets s) \<Longrightarrow>
     progress (run_updates env s ! i) = percent (i + 1) (length (bulkTargets s))"
  using arg_cong [OF run_updates_progress, of "\<lambda>xs. xs ! i" env s]
  by (simp add: run_updates_length)

lemma startBulk_logs:
  assumes "bulkTargets s \<noteq> []" "generatedCommentText s \<noteq> []"
  shows "rev (logs (startBulk env s)) =
           map (\<lambda>i. newLog (env i) (bulkTargets s ! i)) [0..<length (bulkTargets s)]"
  by (simp add: startBulk_run [OF assms] bulk_loop_logs rev_map)

lemma literal_0_1_value: "literal_0_1 = 3602879701896397 / 36028797018963968"
  unfolding literal_0_1_def by code_simp

section \<open>Properties of the string operations\<close>

lemma js_split_not_Nil [simp]: "js_split sep s \<noteq> []"
  by (induction s) (auto split: list.splits)

lemma js_split_no_sep: "sep \<notin> set s \<Longrightarrow> js_split sep s = [s]"
  by (induction s) auto

lemma js_split_append: "sep \<notin> set a \<Longrightarrow> js_split sep (a @ sep # b) = a # js_split sep b"
  by (induction a) auto

lemma js_split_hd: "hd (js_split sep s) = takeWhile (\<lambda>c. c \<noteq> sep) s"
  by (induction s) (auto split: list.splits)

lemma js_split_tl:
  "tl (js_split sep s) =
     (case dropWhile (\<lambda>c. c \<noteq> sep) s of [] \<Rightarrow> [] | c # r \<Rightarrow> js_split sep r)"
proof (induction s)
  case Nil
  show ?case by simp
next
  case (Cons a s)
  obtain p ps where ps: "js_split sep s = p # ps"
    using js_split_not_Nil [of sep s] by (cases "js_split sep s") auto
  show ?case
  proof (cases "a = sep")
    case True
    then show ?thesis by simp
  next
    case False
    then show ?thesis using Cons.IH by (simp add: ps)
  qed
qed

lemma element_0: "xs \<noteq> [] \<Longrightarrow> element xs 0 = Some (hd xs)"
  by (cases xs) (simp_all add: element_def)

lemma element_1: "element xs 1 = (case tl xs of [] \<Rightarrow> None | y # ys \<Rightarrow> Some y)"
  by (cases xs; cases "tl xs") (auto simp: element_def)

lemma js_split_first:
  "(case js_split sep r of [] \<Rightarrow> None | y # ys \<Rightarrow> Some y) = Some (takeWhile (\<lambda>c. c \<noteq> sep) r)"
  using js_split_hd [of sep r] by (cases "js_split sep r") simp_all

lemma element_1_split:
  "element (js_split sep s) 1 =
     (case dropWhile (\<lambda>c. c \<noteq> sep) s of [] \<Rightarrow> None
      | c # r \<Rightarrow> Some (takeWhile (\<lambda>c. c \<noteq> sep) r))"
  unfolding element_1 js_split_tl
  by (cases "dropWhile (\<lambda>c. c \<noteq> sep) s") (simp_all only: list.case js_split_first)

lemma parse_line_fields:
  "parse_line line =
     \<lparr>title = or_default (Some (takeWhile (\<lambda>c. c \<noteq> pipe) line)) (js ''Postingan Blog''),
      url = or_default (case dropWhile (\<lambda>c. c \<noteq> pipe) line of [] \<Rightarrow> None
                        | c # r \<Rightarrow> Some (takeWhile (\<lambda>c. c \<noteq> pipe) r)) line\<rparr>"
  unfolding parse_line_def Let_def element_1_split
  by (simp only: element_0 [OF js_split_not_Nil] js_split_hd)

lemma parse_line_no_pipe:
  assumes "pipe \<notin> set line" "line \<noteq> []"
  shows "parse_line line = \<lparr>title = line, url = line\<rparr>"
proof -
  have t: "takeWhile (\<lambda>c. c \<noteq> pipe) line = line" and d: "dropWhile (\<lambda>c. c \<noteq> pipe) line = []"
    using assms(1) by auto
  show ?thesis unfolding parse_line_fields t d using assms(2) by simp
qed

lemma in_set_dropWhile: "c \<in> set s \<Longrightarrow> \<not> P c \<Longrightarrow> c \<in> set (dropWhile P s)"
  by (induction s) auto

lemma js_trim_not_Nil: "c \<in> set s \<Longrightarrow> \<not> is_space c \<Longrightarrow> js_trim s \<noteq> []"
proof -
  assume c: "c \<in> set s" "\<not> is_space c"
  then have "c \<in> set (rev (dropWhile is_space s))" by (simp add: in_set_dropWhile)
  then have "c \<in> set (dropWhile is_space (rev (dropWhile is_space s)))"
    using c(2) by (rule in_set_dropWhile)
  then have "0 < length (dropWhile is_space (rev (dropWhile is_space s)))"
    by (rule length_pos_if_in_set)
  then show ?thesis unfolding js_trim_def by (simp del: dropWhile_eq_Nil_conv)
qed

lemma pipe_not_space: "\<not> is_space pipe"
  by (simp add: is_space_def pipe_def)

lemma pipe_not_newline: "pipe \<noteq> newline"
  by (simp add: pipe_def newline_def)

lemma js_split_join:
  "lines \<noteq> [] \<Longrightarrow> \<forall>l \<in> set lines. sep \<notin> set l \<Longrightarrow> js_split sep (js_join [sep] lines) = lines"
proof (induction "[sep]" lines rule: js_join.induct)
  case 1
  then show ?case by simp
next
  case (2 x)
  then show ?case by (simp add: js_split_no_sep)
next
  case (3 x y ys)
  then show ?case by (simp add: js_split_append)
qed

lemma imported_single:
  assumes "newline \<notin> set line" "js_trim line \<noteq> []"
  shows "imported line = [parse_line line]"
  using assms by (simp add: imported_def js_split_no_sep)

lemma takeWhile_sep: "sep \<notin> set a \<Longrightarrow> takeWhile (\<lambda>c. c \<noteq> sep) (a @ sep # b) = a"
  by (induction a) auto

lemma dropWhile_sep: "sep \<notin> set a \<Longrightarrow> dropWhile (\<lambda>c. c \<noteq> sep) (a @ sep # b) = sep # b"
  by (induction a) auto

lemma parse_line_record:
  assumes "title r \<noteq> []" "url r \<noteq> []" "pipe \<notin> set (title r)" "pipe \<notin> set (url r)"
  shows "parse_line (title r @ pipe # url r) = r"
proof -
  have t: "takeWhile (\<lambda>c. c \<noteq> pipe) (title r @ pipe # url r) = title r"
    using assms(3) by (rule takeWhile_sep)
  have d: "dropWhile (\<lambda>c. c \<noteq> pipe) (title r @ pipe # url r) = pipe # url r"
    using assms(3) by (rule dropWhile_sep)
  have u: "takeWhile (\<lambda>c. c \<noteq> pipe) (url r) = url r" using assms(4) by auto
  show ?thesis unfolding parse_line_fields t d using assms(1,2) by (simp add: u)
qed

lemma imported_join:
  assumes "lines \<noteq> []" "\<forall>l \<in> set lines. newline \<notin> set l \<and> js_trim l \<noteq> []"
  shows "imported (js_join [newline] lines) = map parse_line lines"
proof -
  have "js_split newline (js_join [newline] lines) = lines"
    using assms by (intro js_split_join) auto
  moreover have "filter (\<lambda>l. js_trim l \<noteq> []) lines = lines" using assms(2) by (simp add: filter_id_conv)
  ultimately show ?thesis by (simp add: imported_def)
qed

lemma js_slice0_set: "set (js_slice0 xs e) \<subseteq> set xs"
  by (auto simp: js_slice0_def Let_def dest: in_set_takeD)

lemma js_slice0_length: "0 \<le> e \<Longrightarrow> int (length (js_slice0 xs e)) \<le> e"
  by (simp add: js_slice0_def Let_def)

section \<open>Properties of the file encoding\<close>

lemma byte_unat: "n < 256 \<Longrightarrow> unat (of_nat n :: 8 word) = n"
  by (simp add: unat_of_nat)

lemma decode_ascii:
  "unat b \<le> 0x7F \<Longrightarrow> utf8_decode 0 0 0x80 0xBF (b # bs) = unat b # utf8_decode 0 0 0x80 0xBF bs"
  by simp

lemma decode_lead2:
  "0xC2 \<le> unat b \<Longrightarrow> unat b \<le> 0xDF \<Longrightarrow>
     utf8_decode 0 0 0x80 0xBF (b # bs) = utf8_decode (unat b mod 0x20) 1 0x80 0xBF bs"
  by simp

lemma decode_lead3:
  "0xE0 \<le> unat b \<Longrightarrow> unat b \<le> 0xEF \<Longrightarrow>
     utf8_decode 0 0 0x80 0xBF (b # bs) =
       utf8_decode (unat b mod 0x10) 2 (if unat b = 0xE0 then 0xA0 else 0x80)
         (if unat b = 0xED then 0x9F else 0xBF) bs"
  by simp

lemma decode_lead4:
  "0xF0 \<le> unat b \<Longrightarrow> unat b \<le> 0xF4 \<Longrightarrow>
     utf8_decode 0 0 0x80 0xBF (b # bs) =
       utf8_decode (unat b mod 8) 3 (if unat b = 0xF0 then 0x90 else 0x80)
         (if unat b = 0xF4 then 0x8F else 0xBF) bs"
  by simp

lemma decode_last:
  "lower \<le> unat b \<Longrightarrow> unat b \<le> upper \<Longrightarrow>
     utf8_decode cp 1 lower upper (b # bs) = (cp * 0x40 + unat b mod 0x40) # utf8_decode 0 0 0x80 0xBF bs"
  by simp

lemma decode_cont:
  "1 < needed \<Longrightarrow> lower \<le> unat b \<Longrightarrow> unat b \<le> upper \<Longrightarrow>
     utf8_decode cp needed lower upper (b # bs) =
       utf8_decode (cp * 0x40 + unat b mod 0x40) (needed - 1) 0x80 0xBF bs"
  by simp

lemma split_64: "(cp::nat) div 0x40 * 0x40 + cp mod 0x40 = cp"
  by simp

lemma mod_shift: "(a::nat) < m \<Longrightarrow> (k * m + a) mod m = a"
  by simp

lemma lead2_mod: "(a::nat) < 0x20 \<Longrightarrow> (0xC0 + a) mod 0x20 = a"
  using mod_shift [of a "0x20" 6] by simp

lemma lead3_mod: "(a::nat) < 0x10 \<Longrightarrow> (0xE0 + a) mod 0x10 = a"
  using mod_shift [of a "0x10" 14] by simp

lemma lead4_mod: "(a::nat) < 8 \<Longrightarrow> (0xF0 + a) mod 8 = a"
  using mod_shift [of a 8 30] by simp

lemma cont_mod: "(a::nat) < 0x40 \<Longrightarrow> (0x80 + a) mod 0x40 = a"
  using mod_shift [of a "0x40" 2] by simp

declare utf8_decode.simps [simp del]

lemma decode_encode1:
  assumes "cp < 0x80"
  shows "utf8_decode 0 0 0x80 0xBF (utf8_encode cp @ bs) = cp # utf8_decode 0 0 0x80 0xBF bs"
proof -
  define b :: byte where "b = of_nat cp"
  have u: "unat b = cp" unfolding b_def using assms by (intro byte_unat) simp
  have enc: "utf8_encode cp = [b]" using assms by (simp add: utf8_encode_def b_def)
  have "unat b \<le> 0x7F" using assms u by simp
  from decode_ascii [OF this, of bs] show ?thesis by (simp only: enc u append.simps)
qed

lemma split_4096: "(cp::nat) div 0x1000 * 0x40 + cp div 0x40 mod 0x40 = cp div 0x40"
proof -
  have "cp div 0x1000 = cp div 0x40 div 0x40" using div_mult2_eq [of cp "0x40" "0x40"] by simp
  then show ?thesis by simp
qed

lemma split_262144: "(cp::nat) div 0x40000 * 0x40 + cp div 0x1000 mod 0x40 = cp div 0x1000"
proof -
  have "cp div 0x40000 = cp div 0x1000 div 0x40" using div_mult2_eq [of cp "0x1000" "0x40"] by simp
  then show ?thesis by simp
qed

lemma decode_encode2:
  assumes "0x80 \<le> cp" "cp < 0x800"
  shows "utf8_decode 0 0 0x80 0xBF (utf8_encode cp @ bs) = cp # utf8_decode 0 0 0x80 0xBF bs"
proof -
  define a1 where "a1 = cp div 0x40"
  define a2 where "a2 = cp mod 0x40"
  define b1 :: byte where "b1 = of_nat (0xC0 + a1)"
  define b2 :: byte where "b2 = of_nat (0x80 + a2)"
  have "0x80 div 0x40 \<le> cp div 0x40" using assms(1) by (rule div_le_mono)
  then have a1: "2 \<le> a1" by (simp add: a1_def)
  have a1': "a1 < 0x20" unfolding a1_def using assms(2) by (intro less_mult_imp_div_less) simp
  have a2: "a2 < 0x40" by (simp add: a2_def)
  have cp: "a1 * 0x40 + a2 = cp" unfolding a1_def a2_def by (rule split_64)
  have enc: "utf8_encode cp = [b1, b2]"
    using assms by (simp add: utf8_encode_def b1_def b2_def a1_def a2_def)
  have u1: "unat b1 = 0xC0 + a1" unfolding b1_def using a1' by (intro byte_unat) simp
  have u2: "unat b2 = 0x80 + a2" unfolding b2_def using a2 by (intro byte_unat) simp
  have r1: "0xC2 \<le> unat b1" "unat b1 \<le> 0xDF" using a1 a1' unfolding u1 by simp_all
  have m1: "unat b1 mod 0x20 = a1" unfolding u1 using a1' by (rule lead2_mod)
  have r2: "0x80 \<le> unat b2" "unat b2 \<le> 0xBF" using a2 unfolding u2 by simp_all
  have m2: "unat b2 mod 0x40 = a2" unfolding u2 using a2 by (rule cont_mod)
  have "utf8_decode 0 0 0x80 0xBF (b1 # b2 # bs) = utf8_decode a1 1 0x80 0xBF (b2 # bs)"
    using decode_lead2 [OF r1] by (simp only: m1)
  also have "\<dots> = (a1 * 0x40 + a2) # utf8_decode 0 0 0x80 0xBF bs"
    using decode_last [OF r2] by (simp only: m2)
  finally show ?thesis by (simp only: enc cp append.simps)
qed

lemma decode_encode3:
  assumes "0x800 \<le> cp" "cp < 0x10000" "\<not> (0xD800 \<le> cp \<and> cp \<le> 0xDFFF)"
  shows "utf8_decode 0 0 0x80 0xBF (utf8_encode cp @ bs) = cp # utf8_decode 0 0 0x80 0xBF bs"
proof -
  define q where "q = cp div 0x40"
  define a1 where "a1 = cp div 0x1000"
  define a2 where "a2 = cp div 0x40 mod 0x40"
  define a3 where "a3 = cp mod 0x40"
  define b1 :: byte where "b1 = of_nat (0xE0 + a1)"
  define b2 :: byte where "b2 = of_nat (0x80 + a2)"
  define b3 :: byte where "b3 = of_nat (0x80 + a3)"
  define lo :: nat where "lo = (if unat b1 = 0xE0 then 0xA0 else 0x80)"
  define hi :: nat where "hi = (if unat b1 = 0xED then 0x9F else 0xBF)"
  have q: "a1 * 0x40 + a2 = q" unfolding a1_def a2_def q_def by (rule split_4096)
  have cp: "q * 0x40 + a3 = cp" unfolding q_def a3_def by (rule split_64)
  have "0x800 div 0x40 \<le> cp div 0x40" using assms(1) by (rule div_le_mono)
  then have q_lo: "0x20 \<le> q" by (simp add: q_def)
  have a1: "a1 < 0x10" unfolding a1_def using assms(2) by (intro less_mult_imp_div_less) simp
  have a2: "a2 < 0x40" by (simp add: a2_def)
  have a3: "a3 < 0x40" by (simp add: a3_def)
  have sur: "a1 = 0xD \<Longrightarrow> a2 < 0x20"
  proof -
    assume "a1 = 0xD"
    then have "cp < 0xE000" using q cp a2 a3 by linarith
    then have "cp < 0xD800" using assms(3) by linarith
    then have "q < 0x360" unfolding q_def by (intro less_mult_imp_div_less) simp
    then show "a2 < 0x20" using q \<open>a1 = 0xD\<close> by linarith
  qed
  have enc: "utf8_encode cp = [b1, b2, b3]"
    using assms by (simp add: utf8_encode_def b1_def b2_def b3_def a1_def a2_def a3_def)
  have u1: "unat b1 = 0xE0 + a1" unfolding b1_def using a1 by (intro byte_unat) simp
  have u2: "unat b2 = 0x80 + a2" unfolding b2_def using a2 by (intro byte_unat) simp
  have u3: "unat b3 = 0x80 + a3" unfolding b3_def using a3 by (intro byte_unat) simp
  have r1: "0xE0 \<le> unat b1" "unat b1 \<le> 0xEF" using a1 unfolding u1 by simp_all
  have m1: "unat b1 mod 0x10 = a1" unfolding u1 using a1 by (rule lead3_mod)
  have "lo \<le> 0x80 + a2"
  proof (cases "a1 = 0")
    case True
    then have "0x20 \<le> a2" using q q_lo by linarith
    then show ?thesis by (simp add: lo_def u1)
  next
    case False
    then show ?thesis by (simp add: lo_def u1)
  qed
  moreover have "0x80 + a2 \<le> hi"
  proof (cases "a1 = 0xD")
    case True
    then show ?thesis using sur by (simp add: hi_def u1)
  next
    case False
    then show ?thesis using a2 by (simp add: hi_def u1)
  qed
  ultimately have r2: "lo \<le> unat b2" "unat b2 \<le> hi" unfolding u2 by simp_all
  have m2: "unat b2 mod 0x40 = a2" unfolding u2 using a2 by (rule cont_mod)
  have r3: "0x80 \<le> unat b3" "unat b3 \<le> 0xBF" using a3 unfolding u3 by simp_all
  have m3: "unat b3 mod 0x40 = a3" unfolding u3 using a3 by (rule cont_mod)
  have "utf8_decode 0 0 0x80 0xBF (b1 # b2 # b3 # bs) = utf8_decode a1 2 lo hi (b2 # b3 # bs)"
    using decode_lead3 [OF r1] by (simp only: m1 lo_def hi_def)
  also have "\<dots> = utf8_decode (a1 * 0x40 + a2) (2 - 1) 0x80 0xBF (b3 # bs)"
    using decode_cont [OF _ r2, of 2] by (simp only: m2)
  also have "\<dots> = utf8_decode q 1 0x80 0xBF (b3 # bs)" by (simp only: q) simp
  also have "\<dots> = (q * 0x40 + a3) # utf8_decode 0 0 0x80 0xBF bs"
    using decode_last [OF r3] by (simp only: m3)
  finally show ?thesis by (simp only: enc cp append.simps)
qed

lemma decode_encode4:
  assumes "0x10000 \<le> cp" "cp < 0x110000"
  shows "utf8_decode 0 0 0x80 0xBF (utf8_encode cp @ bs) = cp # utf8_decode 0 0 0x80 0xBF bs"
proof -
  define q where "q = cp div 0x40"
  define p where "p = cp div 0x1000"
  define a1 where "a1 = cp div 0x40000"
  define a2 where "a2 = cp div 0x1000 mod 0x40"
  define a3 where "a3 = cp div 0x40 mod 0x40"
  define a4 where "a4 = cp mod 0x40"
  define b1 :: byte where "b1 = of_nat (0xF0 + a1)"
  define b2 :: byte where "b2 = of_nat (0x80 + a2)"
  define b3 :: byte where "b3 = of_nat (0x80 + a3)"
  define b4 :: byte where "b4 = of_nat (0x80 + a4)"
  define lo :: nat where "lo = (if unat b1 = 0xF0 then 0x90 else 0x80)"
  define hi :: nat where "hi = (if unat b1 = 0xF4 then 0x8F else 0xBF)"
  have p: "a1 * 0x40 + a2 = p" unfolding a1_def a2_def p_def by (rule split_262144)
  have q: "p * 0x40 + a3 = q" unfolding p_def a3_def q_def by (rule split_4096)
  have cp: "q * 0x40 + a4 = cp" unfolding q_def a4_def by (rule split_64)
  have "0x10000 div 0x1000 \<le> cp div 0x1000" using assms(1) by (rule div_le_mono)
  then have p_lo: "0x10 \<le> p" by (simp add: p_def)
  have p_hi: "p < 0x110" unfolding p_def using assms(2) by (intro less_mult_imp_div_less) simp
  have a1: "a1 < 5" unfolding a1_def using assms(2) by (intro less_mult_imp_div_less) simp
  have a2: "a2 < 0x40" by (simp add: a2_def)
  have a3: "a3 < 0x40" by (simp add: a3_def)
  have a4: "a4 < 0x40" by (simp add: a4_def)
  have enc: "utf8_encode cp = [b1, b2, b3, b4]"
    using assms by (simp add: utf8_encode_def b1_def b2_def b3_def b4_def a1_def a2_def a3_def a4_def)
  have u1: "unat b1 = 0xF0 + a1" unfolding b1_def using a1 by (intro byte_unat) simp
  have u2: "unat b2 = 0x80 + a2" unfolding b2_def using a2 by (intro byte_unat) simp
  have u3: "unat b3 = 0x80 + a3" unfolding b3_def using a3 by (intro byte_unat) simp
  have u4: "unat b4 = 0x80 + a4" unfolding b4_def using a4 by (intro byte_unat) simp
  have r1: "0xF0 \<le> unat b1" "unat b1 \<le> 0xF4" using a1 unfolding u1 by simp_all
  have m1: "unat b1 mod 8 = a1" unfolding u1 using a1 by (intro lead4_mod) simp
  have "lo \<le> 0x80 + a2"
  proof (cases "a1 = 0")
    case True
    then have "0x10 \<le> a2" using p p_lo by linarith
    then show ?thesis by (simp add: lo_def u1)
  next
    case False
    then show ?thesis by (simp add: lo_def u1)
  qed
  moreover have "0x80 + a2 \<le> hi"
  proof (cases "a1 = 4")
    case True
    then have "a2 < 0x10" using p p_hi by linarith
    then show ?thesis using True by (simp add: hi_def u1)
  next
    case False
    then show ?thesis using a2 by (simp add: hi_def u1)
  qed
  ultimately have r2: "lo \<le> unat b2" "unat b2 \<le> hi" unfolding u2 by simp_all
  have m2: "unat b2 mod 0x40 = a2" unfolding u2 using a2 by (rule cont_mod)
  have r3: "0x80 \<le> unat b3" "unat b3 \<le> 0xBF" using a3 unfolding u3 by simp_all
  have m3: "unat b3 mod 0x40 = a3" unfolding u3 using a3 by (rule cont_mod)
  have r4: "0x80 \<le> unat b4" "unat b4 \<le> 0xBF" using a4 unfolding u4 by simp_all
  have m4: "unat b4 mod 0x40 = a4" unfolding u4 using a4 by (rule cont_mod)
  have "utf8_decode 0 0 0x80 0xBF (b1 # b2 # b3 # b4 # bs) = utf8_decode a1 3 lo hi (b2 # b3 # b4 # bs)"
    using decode_lead4 [OF r1] by (simp only: m1 lo_def hi_def)
  also have "\<dots> = utf8_decode (a1 * 0x40 + a2) (3 - 1) 0x80 0xBF (b3 # b4 # bs)"
    using decode_cont [OF _ r2, of 3] by (simp only: m2)
  also have "\<dots> = utf8_decode p 2 0x80 0xBF (b3 # b4 # bs)" by (simp only: p) simp
  also have "\<dots> = utf8_decode (p * 0x40 + a3) (2 - 1) 0x80 0xBF (b4 # bs)"
    using decode_cont [OF _ r3, of 2] by (simp only: m3)
  also have "\<dots> = utf8_decode q 1 0x80 0xBF (b4 # bs)" by (simp only: q) simp
  also have "\<dots> = (q * 0x40 + a4) # utf8_decode 0 0 0x80 0xBF bs"
    using decode_last [OF r4] by (simp only: m4)
  finally show ?thesis by (simp only: enc cp append.simps)
qed

lemma decode_encode:
  assumes "scalar cp"
  shows "utf8_decode 0 0 0x80 0xBF (utf8_encode cp @ bs) = cp # utf8_decode 0 0 0x80 0xBF bs"
proof -
  consider "cp < 0x80" | "0x80 \<le> cp" "cp < 0x800" | "0x800 \<le> cp" "cp < 0x10000" | "0x10000 \<le> cp"
    by linarith
  then show ?thesis
  proof cases
    case 1 then show ?thesis by (rule decode_encode1)
  next
    case 2 then show ?thesis by (rule decode_encode2)
  next
    case 3 then show ?thesis using assms by (intro decode_encode3) (simp_all add: scalar_def)
  next
    case 4 then show ?thesis using assms by (intro decode_encode4) (simp_all add: scalar_def)
  qed
qed

lemma decode_encode_all:
  "\<forall>cp \<in> set cps. scalar cp \<Longrightarrow> utf8_decode 0 0 0x80 0xBF (concat (map utf8_encode cps)) = cps"
  by (induction cps) (simp_all add: decode_encode utf8_decode.simps)

lemma is_high_unat: "is_high c \<longleftrightarrow> 0xD800 \<le> unat c \<and> unat c \<le> 0xDBFF"
  by (simp add: is_high_def word_le_nat_alt)

lemma is_low_unat: "is_low c \<longleftrightarrow> 0xDC00 \<le> unat c \<and> unat c \<le> 0xDFFF"
  by (simp add: is_low_def word_le_nat_alt)

lemma unat_unit_bound: "unat (c :: 16 word) < 0x10000"
  using unsigned_less [of c, where ?'a = nat] by simp

lemma scalar_unit: "\<not> is_high c \<Longrightarrow> \<not> is_low c \<Longrightarrow> scalar (unat c)"
  using unat_unit_bound [of c] by (auto simp: scalar_def is_high_unat is_low_unat)

lemma pair_value_range:
  assumes "is_high c" "is_low d"
  shows "0x10000 \<le> pair_value c d" "pair_value c d < 0x110000"
proof -
  define x where "x = unat c - 0xD800"
  define y where "y = unat d - 0xDC00"
  have "x < 0x400" "y < 0x400" using assms by (auto simp: x_def y_def is_high_unat is_low_unat)
  then have "x * 0x400 + y < 0x100000" by linarith
  then show "0x10000 \<le> pair_value c d" "pair_value c d < 0x110000"
    by (simp_all add: pair_value_def x_def y_def)
qed

lemma scalar_pair: "is_high c \<Longrightarrow> is_low d \<Longrightarrow> scalar (pair_value c d)"
  using pair_value_range [of c d] by (simp add: scalar_def)

lemma scalar_FFFD: "scalar 0xFFFD"
  by (simp add: scalar_def)

lemma scalar_values_scalar: "\<forall>cp \<in> set (scalar_values s). scalar cp"
  by (induction s rule: scalar_values.induct) (auto simp: scalar_unit scalar_pair scalar_FFFD)

lemma utf16_units_unit: "utf16_units (unat (c :: 16 word)) = [c]"
  using unat_unit_bound [of c] by (simp add: utf16_units_def)

lemma utf16_units_pair:
  assumes "is_high c" "is_low d"
  shows "utf16_units (pair_value c d) = [c, d]"
proof -
  define x where "x = unat c - 0xD800"
  define y where "y = unat d - 0xDC00"
  have x: "0xD800 + x = unat c" and y: "0xDC00 + y = unat d" and y4: "y < 0x400"
    using assms by (auto simp: x_def y_def is_high_unat is_low_unat)
  have pv: "pair_value c d - 0x10000 = x * 0x400 + y" by (simp add: pair_value_def x_def y_def)
  have "(x * 0x400 + y) div 0x400 = x" "(x * 0x400 + y) mod 0x400 = y" using y4 by simp_all
  then have "utf16_units (pair_value c d) = [of_nat (0xD800 + x), of_nat (0xDC00 + y)]"
    using pair_value_range(1) [OF assms] by (simp add: utf16_units_def pv)
  then show ?thesis by (simp only: x y) simp
qed

lemma utf16_scalar_values:
  "well_formed s \<Longrightarrow> concat (map utf16_units (scalar_values s)) = s"
  by (induction s rule: scalar_values.induct)
     (auto simp: utf16_units_unit utf16_units_pair split: if_splits)

lemma well_formed_append: "well_formed a \<Longrightarrow> well_formed b \<Longrightarrow> well_formed (a @ b)"
proof (induction a rule: well_formed.induct)
  case 1
  then show ?case by simp
next
  case (2 c)
  then show ?case by (cases b) simp_all
next
  case (3 c d cs)
  then show ?case by (auto split: if_splits)
qed

lemma no_bom_encode:
  assumes "scalar cp" "cp \<noteq> 0xFEFF"
  shows "\<not> starts_with [0xEF, 0xBB, 0xBF] (utf8_encode cp @ bs)"
    and "\<not> starts_with [0xFE, 0xFF] (utf8_encode cp @ bs)"
    and "\<not> starts_with [0xFF, 0xFE] (utf8_encode cp @ bs)"
proof -
  consider "cp < 0x80" | "0x80 \<le> cp" "cp < 0x800" | "0x800 \<le> cp" "cp < 0x10000"
    | "0x10000 \<le> cp" "cp < 0x110000"
    using assms(1) unfolding scalar_def by linarith
  then have "\<not> starts_with [0xEF, 0xBB, 0xBF] (utf8_encode cp @ bs)
      \<and> \<not> starts_with [0xFE, 0xFF] (utf8_encode cp @ bs)
      \<and> \<not> starts_with [0xFF, 0xFE] (utf8_encode cp @ bs)"
  proof cases
    case 1
    define b :: byte where "b = of_nat cp"
    have u: "unat b = cp" unfolding b_def using 1 by (intro byte_unat) simp
    have enc: "utf8_encode cp = [b]" using 1 by (simp add: utf8_encode_def b_def)
    have "b \<noteq> 0xEF" "b \<noteq> 0xFE" "b \<noteq> 0xFF" using u 1 by auto
    then show ?thesis by (simp add: enc)
  next
    case 2
    define b1 :: byte where "b1 = of_nat (0xC0 + cp div 0x40)"
    have "cp div 0x40 < 0x20" using 2(2) by (intro less_mult_imp_div_less) simp
    then have "0xC0 + cp div 0x40 < 0xE0" by simp
    moreover from this have "unat b1 = 0xC0 + cp div 0x40" unfolding b1_def by (intro byte_unat) simp
    ultimately have "unat b1 < 0xE0" by simp
    then have "b1 \<noteq> 0xEF" "b1 \<noteq> 0xFE" "b1 \<noteq> 0xFF" by auto
    moreover have "\<exists>rest. utf8_encode cp = b1 # rest" using 2 by (simp add: utf8_encode_def b1_def)
    ultimately show ?thesis by auto
  next
    case 3
    define q where "q = cp div 0x40"
    define a1 where "a1 = cp div 0x1000"
    define a2 where "a2 = cp div 0x40 mod 0x40"
    define a3 where "a3 = cp mod 0x40"
    define b1 :: byte where "b1 = of_nat (0xE0 + a1)"
    define b2 :: byte where "b2 = of_nat (0x80 + a2)"
    define b3 :: byte where "b3 = of_nat (0x80 + a3)"
    have q: "a1 * 0x40 + a2 = q" unfolding a1_def a2_def q_def by (rule split_4096)
    have cp: "q * 0x40 + a3 = cp" unfolding q_def a3_def by (rule split_64)
    have a1: "a1 < 0x10" unfolding a1_def using 3(2) by (intro less_mult_imp_div_less) simp
    have a2: "a2 < 0x40" by (simp add: a2_def)
    have a3: "a3 < 0x40" by (simp add: a3_def)
    have enc: "utf8_encode cp = [b1, b2, b3]"
      using 3 by (simp add: utf8_encode_def b1_def b2_def b3_def a1_def a2_def a3_def)
    have u1: "unat b1 = 0xE0 + a1" unfolding b1_def using a1 by (intro byte_unat) simp
    have u2: "unat b2 = 0x80 + a2" unfolding b2_def using a2 by (intro byte_unat) simp
    have u3: "unat b3 = 0x80 + a3" unfolding b3_def using a3 by (intro byte_unat) simp
    have "\<not> (b1 = 0xEF \<and> b2 = 0xBB \<and> b3 = 0xBF)"
    proof
      assume "b1 = 0xEF \<and> b2 = 0xBB \<and> b3 = 0xBF"
      then have "unat b1 = 0xEF" "unat b2 = 0xBB" "unat b3 = 0xBF" by simp_all
      then have "a1 = 0xF" "a2 = 0x3B" "a3 = 0x3F" using u1 u2 u3 by simp_all
      then have "cp = 0xFEFF" using q cp by simp
      then show False using assms(2) by simp
    qed
    moreover have "b1 \<noteq> 0xFE" "b1 \<noteq> 0xFF" using u1 a1 by auto
    ultimately show ?thesis by (auto simp: enc)
  next
    case 4
    define b1 :: byte where "b1 = of_nat (0xF0 + cp div 0x40000)"
    have "cp div 0x40000 < 5" using 4(2) by (intro less_mult_imp_div_less) simp
    then have "0xF0 + cp div 0x40000 < 0xF5" by simp
    moreover from this have "unat b1 = 0xF0 + cp div 0x40000" unfolding b1_def by (intro byte_unat) simp
    moreover have "0xF0 \<le> 0xF0 + cp div 0x40000" by simp
    ultimately have "0xF0 \<le> unat b1" "unat b1 < 0xF5" by simp_all
    then have "b1 \<noteq> 0xEF" "b1 \<noteq> 0xFE" "b1 \<noteq> 0xFF" by auto
    moreover have "\<exists>rest. utf8_encode cp = b1 # rest" using 4 by (simp add: utf8_encode_def b1_def)
    ultimately show ?thesis by auto
  qed
  then show "\<not> starts_with [0xEF, 0xBB, 0xBF] (utf8_encode cp @ bs)"
    and "\<not> starts_with [0xFE, 0xFF] (utf8_encode cp @ bs)"
    and "\<not> starts_with [0xFF, 0xFE] (utf8_encode cp @ bs)" by simp_all
qed

lemma unat_not_FEFF:
  assumes "(c :: 16 word) \<noteq> 0xFEFF"
  shows "unat c \<noteq> 0xFEFF"
proof
  assume "unat c = 0xFEFF"
  then have "word_of_nat (unat c) = (word_of_nat 0xFEFF :: 16 word)" by (simp only:)
  then have "c = 0xFEFF" by simp
  then show False using assms by simp
qed

lemma first_scalar_value:
  assumes "well_formed (c # cs)" "c \<noteq> 0xFEFF"
  shows "\<exists>cp rest. scalar_values (c # cs) = cp # rest \<and> cp \<noteq> 0xFEFF"
proof (cases cs)
  case Nil
  have "unat c \<noteq> 0xFEFF" using assms(2) by (rule unat_not_FEFF)
  then show ?thesis using assms Nil by simp
next
  case (Cons d ds)
  show ?thesis
  proof (cases "is_high c")
    case True
    then have "is_low d" using assms Cons by simp
    then show ?thesis using True Cons pair_value_range(1) [of c d] by auto
  next
    case False
    have "unat c \<noteq> 0xFEFF" using assms(2) by (rule unat_not_FEFF)
    then show ?thesis using assms False Cons by simp
  qed
qed

lemma readAsText_blob:
  assumes "well_formed s" "s \<noteq> [] \<longrightarrow> hd s \<noteq> 0xFEFF"
  shows "readAsText (blob_bytes s) = s"
proof (cases s)
  case Nil
  then show ?thesis by (simp add: readAsText_def blob_bytes_def utf8_decode.simps)
next
  case (Cons c cs)
  then obtain cp rest where sv: "scalar_values s = cp # rest" "cp \<noteq> 0xFEFF"
    using first_scalar_value [of c cs] assms by auto
  have sc: "\<forall>x \<in> set (scalar_values s). scalar x" by (rule scalar_values_scalar)
  then have "scalar cp" by (simp add: sv)
  have bytes: "blob_bytes s = utf8_encode cp @ concat (map utf8_encode rest)"
    by (simp add: blob_bytes_def sv)
  have "readAsText (blob_bytes s) = concat (map utf16_units (utf8_decode 0 0 0x80 0xBF (blob_bytes s)))"
    unfolding readAsText_def bytes
    using no_bom_encode [OF \<open>scalar cp\<close> sv(2)] by simp
  also have "utf8_decode 0 0 0x80 0xBF (blob_bytes s) = scalar_values s"
    unfolding blob_bytes_def using sc by (rule decode_encode_all)
  also have "concat (map utf16_units (scalar_values s)) = s"
    using assms(1) by (rule utf16_scalar_values)
  finally show ?thesis .
qed

section \<open>Properties of the events of a run\<close>

lemma handleFileUpload_isBulking: "isBulking (handleFileUpload f s) = isBulking s"
  by (cases f) (simp_all add: handleFileUpload_def Let_def)

lemma one_run_step: "one_run sys \<Longrightarrow> one_run (step e sys)"
proof (cases e)
  case Click
  assume "one_run sys"
  then show ?thesis
    unfolding Click by (auto simp: one_run_def begin_bulk_def Let_def)
next
  case (Timer k d)
  assume inv: "one_run sys"
  show ?thesis
  proof (cases "k < length (in_flight sys)")
    case True
    with inv have k: "k = 0" "length (in_flight sys) = 1" by (auto simp: one_run_def)
    then obtain r where r: "in_flight sys = [r]" by (cases "in_flight sys") auto
    show ?thesis
      unfolding Timer using inv k by (simp add: one_run_def resume_def Let_def r)
  next
    case False
    then show ?thesis unfolding Timer using inv by (simp add: resume_def)
  qed
next
  case (Upload f)
  assume "one_run sys"
  then show ?thesis unfolding Upload by (simp add: one_run_def handleFileUpload_isBulking)
next
  case (Other handler)
  assume "one_run sys"
  then show ?thesis unfolding Other by (simp add: one_run_def)
qed

lemma one_run_events: "one_run sys \<Longrightarrow> one_run (run_events es sys)"
  unfolding run_events_def by (induction es arbitrary: sys) (simp_all add: one_run_step)

lemma one_run_at_rest: "\<not> isBulking s \<Longrightarrow> one_run (at_rest s)"
  by (simp add: one_run_def at_rest_def)

lemma bulk_step_draw: "bulk_step (\<lambda>j. env i) ts i s = bulk_step env ts i s"
  by (simp add: bulk_step_def)

lemma run_events_Cons: "run_events (e # es) sys = run_events es (step e sys)"
  by (simp add: run_events_def)

lemma timers_finish_run:
  assumes "i < length ts" "in_flight sys = [\<lparr>run_targets = ts, run_index = i\<rparr>]"
  shows "run_events (map (\<lambda>j. Timer 0 (env j)) [i..<length ts]) sys
           = sys\<lparr>cells := (bulk_loop env ts i (cells sys))\<lparr>isBulking := False\<rparr>, in_flight := []\<rparr>"
  using assms
proof (induction "length ts - i" arbitrary: i sys)
  case 0
  then show ?case by simp
next
  case (Suc n)
  have up: "[i..<length ts] = i # [Suc i..<length ts]" using Suc.prems(1) by (rule upt_conv_Cons)
  show ?case
  proof (cases "Suc i < length ts")
    case True
    let ?sys = "sys\<lparr>cells := bulk_step env ts i (cells sys),
                      in_flight := [\<lparr>run_targets = ts, run_index = Suc i\<rparr>]\<rparr>"
    have st: "step (Timer 0 (env i)) sys = ?sys"
      using True by (simp add: resume_def Let_def Suc.prems(2) bulk_step_draw)
    have "n = length ts - Suc i" using Suc.hyps(2) by simp
    from Suc.hyps(1) [OF this True, of ?sys]
    have "run_events (map (\<lambda>j. Timer 0 (env j)) [Suc i..<length ts]) ?sys
            = ?sys\<lparr>cells := (bulk_loop env ts (Suc i) (cells ?sys))\<lparr>isBulking := False\<rparr>,
                   in_flight := []\<rparr>" by simp
    moreover have "bulk_loop env ts i (cells sys) = bulk_loop env ts (Suc i) (bulk_step env ts i (cells sys))"
      using Suc.prems(1) by (subst bulk_loop.simps) simp
    ultimately show ?thesis unfolding up list.map run_events_Cons st by simp
  next
    case False
    then have last: "Suc i = length ts" using Suc.prems(1) by simp
    have st: "step (Timer 0 (env i)) sys
                = sys\<lparr>cells := (bulk_step env ts i (cells sys))\<lparr>isBulking := False\<rparr>, in_flight := []\<rparr>"
      using False by (simp add: resume_def Let_def Suc.prems(2) bulk_step_draw)
    have bl: "bulk_loop env ts i (cells sys) = bulk_step env ts i (cells sys)"
      using Suc.prems(1) last by (subst bulk_loop.simps, subst bulk_loop.simps) simp
    have e: "[Suc i..<length ts] = []" using last by simp
    show ?thesis unfolding up list.map run_events_Cons st e bl by (simp add: run_events_def)
  qed
qed

lemma events_of_a_run:
  assumes "\<not> isBulking s" "bulkTargets s \<noteq> []" "generatedCommentText s \<noteq> []"
  shows "run_events (Click # map (\<lambda>j. Timer 0 (env j)) [0..<length (bulkTargets s)]) (at_rest s)
           = at_rest (startBulk env s)"
proof -
  let ?sys = "\<lparr>cells = s\<lparr>isBulking := True, logs := [], progress := 0\<rparr>,
               in_flight = [\<lparr>run_targets = bulkTargets s, run_index = 0\<rparr>]\<rparr>"
  have c: "step Click (at_rest s) = ?sys"
    using assms by (simp add: at_rest_def begin_bulk_def Let_def)
  have "run_events (map (\<lambda>j. Timer 0 (env j)) [0..<length (bulkTargets s)]) ?sys
          = ?sys\<lparr>cells := (bulk_loop env (bulkTargets s) 0 (cells ?sys))\<lparr>isBulking := False\<rparr>,
                 in_flight := []\<rparr>"
    using assms(2) by (intro timers_finish_run) simp_all
  then show ?thesis
    unfolding run_events_Cons c by (simp add: startBulk_run [OF assms(2,3)] at_rest_def)
qed

text \<open>
  From rest, the click and the timers of one run lead to the state that \<open>startBulk\<close> gives
  for the whole run (\<open>events_of_a_run\<close>). The calls of two runs in flight at once would
  write to the same log: with one target each, the log ends with two entries.
\<close>

lemma overlapping_calls_share_the_log:
  "length (logs (cells (resume 0 d' (resume 0 d (begin_bulk (begin_bulk
      (at_rest (sample_state [post ''Post A'' ''https://a.blogspot.com/1''] ''Great tips!'')))))))) = 2"
  by (simp add: at_rest_def sample_state_def begin_bulk_def resume_def Let_def js_def)

section \<open>The Bulk Runner: a completed run\<close>

text \<open>
  Claim C1. For every non-empty target list of length \<open>N\<close> and every non-empty comment
  text, a run of \<open>startBulk\<close> returns (the function is total) and has emitted exactly
  \<open>N\<close> log entries, one per target and in list order: read oldest first, the log is the
  list of the entries built for the targets \<open>0, \<dots>, N - 1\<close>, and their urls are the
  urls of the targets. The run made \<open>N\<close> updates, ends with \<open>progress\<close> equal to 100
  and with \<open>isBulking\<close> false.
\<close>

theorem startBulk_completes:
  assumes "bulkTargets s \<noteq> []" and "generatedCommentText s \<noteq> []"
  shows "rev (logs (startBulk env s)) =
           map (\<lambda>i. newLog (env i) (bulkTargets s ! i)) [0..<length (bulkTargets s)]
         \<and> length (logs (startBulk env s)) = length (bulkTargets s)
         \<and> map entry_url (rev (logs (startBulk env s))) = map url (bulkTargets s)
         \<and> length (run_updates env s) = length (bulkTargets s)
         \<and> progress (startBulk env s) = 100
         \<and> \<not> isBulking (startBulk env s)"
proof -
  let ?ts = "bulkTargets s"
  have run: "startBulk env s =
      (bulk_loop env ?ts 0 (s\<lparr>isBulking := True, logs := [], progress := 0\<rparr>))\<lparr>isBulking := False\<rparr>"
    using assms by (rule startBulk_run)
  have l: "rev (logs (startBulk env s)) = map (\<lambda>i. newLog (env i) (?ts ! i)) [0..<length ?ts]"
    by (simp add: run bulk_loop_logs rev_map)
  have u: "map entry_url (map (\<lambda>i. newLog (env i) (?ts ! i)) [0..<length ?ts]) = map url ?ts"
    by (rule nth_equalityI) (simp_all add: newLog_def Let_def)
  have n: "length (run_updates env s) = length ?ts"
    using arg_cong [OF bulk_updates_progress, of length env ?ts 0]
    by (simp add: run_updates_def)
  have p: "progress (startBulk env s) = 100"
    using assms by (simp add: run bulk_loop_progress percent_full)
  have "length (logs (startBulk env s)) = length (rev (logs (startBulk env s)))" by simp
  also have "\<dots> = length ?ts" by (simp only: l) simp
  finally have len: "length (logs (startBulk env s)) = length ?ts" .
  show ?thesis using l len u n p by (simp add: run)
qed

text \<open>The example of the specification: two posts and a comment.\<close>

theorem startBulk_completes_witness:
  "bulkTargets (sample_state [post ''Post A'' ''https://a.blogspot.com/1'',
                              post ''Post B'' ''https://b.blogspot.com/2''] ''Great tips!'') \<noteq> []
   \<and> generatedCommentText (sample_state [post ''Post A'' ''https://a.blogspot.com/1'',
                              post ''Post B'' ''https://b.blogspot.com/2''] ''Great tips!'') \<noteq> []
   \<and> map entry_url (rev (logs (startBulk sample_env
          (sample_state [post ''Post A'' ''https://a.blogspot.com/1'',
                         post ''Post B'' ''https://b.blogspot.com/2''] ''Great tips!''))))
       = [js ''https://a.blogspot.com/1'', js ''https://b.blogspot.com/2'']
   \<and> progress (startBulk sample_env
          (sample_state [post ''Post A'' ''https://a.blogspot.com/1'',
                         post ''Post B'' ''https://b.blogspot.com/2''] ''Great tips!'')) = 100
   \<and> \<not> isBulking (startBulk sample_env
          (sample_state [post ''Post A'' ''https://a.blogspot.com/1'',
                         post ''Post B'' ''https://b.blogspot.com/2''] ''Great tips!''))"
proof -
  let ?s = "sample_state [post ''Post A'' ''https://a.blogspot.com/1'',
                          post ''Post B'' ''https://b.blogspot.com/2''] ''Great tips!''"
  have h1: "bulkTargets ?s \<noteq> []" by (simp add: sample_state_def)
  have h2: "generatedCommentText ?s \<noteq> []" by (simp add: sample_state_def js_def)
  have u: "map url (bulkTargets ?s) = [js ''https://a.blogspot.com/1'', js ''https://b.blogspot.com/2'']"
    by (simp add: sample_state_def post_def)
  note r = startBulk_completes [OF h1 h2, of sample_env]
  from r have a: "map entry_url (rev (logs (startBulk sample_env ?s))) = map url (bulkTargets ?s)"
    by (elim conjE)
  from r have b: "progress (startBulk sample_env ?s) = 100" by (elim conjE)
  from r have c: "\<not> isBulking (startBulk sample_env ?s)" by (elim conjE)
  show ?thesis using h1 h2 a b c by (simp only: u) simp
qed

section \<open>The Bulk Runner: failed preconditions\<close>

text \<open>
  Claim C3. Starting a run with an empty target list fails with the report
  \<^verbatim>\<open>Daftar target kosong.\<close> (the target list is empty), which is all that changes: no log
  entry is produced, no iteration runs, and \<open>progress\<close>, \<open>isBulking\<close> and the existing
  log are as before.
\<close>

theorem startBulk_empty_targets:
  assumes "bulkTargets s = []"
  shows "startBulk env s = s\<lparr>error := Some (js ''Daftar target kosong.'')\<rparr>
         \<and> logs (startBulk env s) = logs s
         \<and> progress (startBulk env s) = progress s
         \<and> isBulking (startBulk env s) = isBulking s"
  using assms by (simp add: startBulk_def)

theorem startBulk_empty_targets_witness:
  "bulkTargets (sample_state [] ''x'') = []
   \<and> error (startBulk sample_env (sample_state [] ''x'')) = Some (js ''Daftar target kosong.'')
   \<and> logs (startBulk sample_env (sample_state [] ''x'')) = []
   \<and> progress (startBulk sample_env (sample_state [] ''x'')) = 0
   \<and> \<not> isBulking (startBulk sample_env (sample_state [] ''x''))"
proof -
  have h: "bulkTargets (sample_state [] ''x'') = []" by (simp add: sample_state_def)
  show ?thesis using h startBulk_empty_targets [OF h, of sample_env]
    by (simp add: sample_state_def)
qed

text \<open>
  Claim C4, as stated, fails when the target list is empty too: the check of the target
  list comes first, and its report is the one set.
\<close>

theorem missing_comment_counterexample:
  "generatedCommentText (sample_state [] '''') = []
   \<and> error (startBulk sample_env (sample_state [] ''''))
       \<noteq> Some (js ''Teks komentar belum diatur di Tab 2.'')"
  by (simp add: startBulk_def sample_state_def js_def)

text \<open>
  Claim C4, amended. Starting a run with empty comment text fails, whatever the size of
  the target list, and leaves the log, \<open>progress\<close> and \<open>isBulking\<close> as they were: with
  the report \<^verbatim>\<open>Teks komentar belum diatur di Tab 2.\<close> (the comment text is not set) for
  every non-empty target list, and with the report of the empty target list for the empty
  one.
\<close>

theorem startBulk_missing_comment:
  assumes "generatedCommentText s = []"
  shows "startBulk env s =
           s\<lparr>error := Some (if bulkTargets s = [] then js ''Daftar target kosong.''
                             else js ''Teks komentar belum diatur di Tab 2.'')\<rparr>
         \<and> logs (startBulk env s) = logs s
         \<and> progress (startBulk env s) = progress s
         \<and> isBulking (startBulk env s) = isBulking s"
  using assms by (simp add: startBulk_def)

theorem startBulk_missing_comment_witness:
  "generatedCommentText (sample_state [post ''Post A'' ''https://a.blogspot.com/1''] '''') = []
   \<and> error (startBulk sample_env (sample_state [post ''Post A'' ''https://a.blogspot.com/1''] ''''))
       = Some (js ''Teks komentar belum diatur di Tab 2.'')
   \<and> logs (startBulk sample_env (sample_state [post ''Post A'' ''https://a.blogspot.com/1''] '''')) = []"
proof -
  let ?s = "sample_state [post ''Post A'' ''https://a.blogspot.com/1''] ''''"
  have h: "generatedCommentText ?s = []" by (simp add: sample_state_def js_def)
  show ?thesis using h startBulk_missing_comment [OF h, of sample_env]
    by (simp add: sample_state_def)
qed

section \<open>The Bulk Runner: a run in progress\<close>

text \<open>
  Claim C9, as stated, fails: an attempt to start a run while one is in progress does not
  fail with an error. The only way to start a run is the button, which is disabled while a
  run is in progress: after a first click a call is in flight, and a second click leaves
  the state as it is, with no error reported.
\<close>

theorem run_in_progress_counterexample:
  "in_flight (run_events [Click] (at_rest (sample_state [post ''Post A'' ''https://a.blogspot.com/1'']
        ''Great tips!''))) = [\<lparr>run_targets = [post ''Post A'' ''https://a.blogspot.com/1''], run_index = 0\<rparr>]
   \<and> isBulking (cells (run_events [Click]
        (at_rest (sample_state [post ''Post A'' ''https://a.blogspot.com/1''] ''Great tips!''))))
   \<and> error (cells (run_events [Click, Click]
        (at_rest (sample_state [post ''Post A'' ''https://a.blogspot.com/1''] ''Great tips!'')))) = None
   \<and> run_events [Click, Click]
        (at_rest (sample_state [post ''Post A'' ''https://a.blogspot.com/1''] ''Great tips!''))
      = run_events [Click]
        (at_rest (sample_state [post ''Post A'' ''https://a.blogspot.com/1''] ''Great tips!''))"
  by (simp add: run_events_def at_rest_def sample_state_def begin_bulk_def Let_def js_def)

text \<open>
  Claim C9, amended. In every state that the program reaches from rest by clicks on the
  start button, timers of waiting calls, uploads and its other handlers, at most one run is
  in progress, and
  \<open>isBulking\<close> is true exactly while one is; a click on the start button while a run is in
  progress starts no second run, performs no processing work and leaves the whole state
  unchanged, without an error being reported.
\<close>

theorem no_second_run:
  assumes "\<not> isBulking s"
  shows "(isBulking (cells (run_events es (at_rest s)))
           \<longleftrightarrow> in_flight (run_events es (at_rest s)) \<noteq> [])
         \<and> length (in_flight (run_events es (at_rest s))) \<le> 1
         \<and> (in_flight (run_events es (at_rest s)) \<noteq> [] \<longrightarrow>
              run_events (es @ [Click]) (at_rest s) = run_events es (at_rest s))"
proof -
  have inv: "one_run (run_events es (at_rest s))"
    using assms by (intro one_run_events one_run_at_rest)
  have "run_events (es @ [Click]) (at_rest s) = step Click (run_events es (at_rest s))"
    by (simp add: run_events_def)
  then show ?thesis using inv by (auto simp: one_run_def)
qed

theorem no_second_run_witness:
  "\<not> isBulking (sample_state [post ''Post A'' ''https://a.blogspot.com/1''] ''Great tips!'')
   \<and> in_flight (run_events [Click]
        (at_rest (sample_state [post ''Post A'' ''https://a.blogspot.com/1''] ''Great tips!''))) \<noteq> []
   \<and> run_events ([Click] @ [Click])
        (at_rest (sample_state [post ''Post A'' ''https://a.blogspot.com/1''] ''Great tips!''))
      = run_events [Click]
        (at_rest (sample_state [post ''Post A'' ''https://a.blogspot.com/1''] ''Great tips!''))"
proof -
  let ?s = "sample_state [post ''Post A'' ''https://a.blogspot.com/1''] ''Great tips!''"
  have h: "\<not> isBulking ?s" by (simp add: sample_state_def)
  have f: "in_flight (run_events [Click] (at_rest ?s)) \<noteq> []"
    by (simp add: run_events_def at_rest_def sample_state_def begin_bulk_def Let_def js_def)
  from no_second_run [OF h, of "[Click]"] f
  have "run_events ([Click] @ [Click]) (at_rest ?s) = run_events [Click] (at_rest ?s)" by blast
  then show ?thesis using h f by (simp only: simp_thms)
qed

section \<open>The Bulk Runner: progress\<close>

text \<open>
  Claim C2, as stated, fails in two places. With 201 targets the progress shown after the
  200th is already 100 (200 of 201 is 99.5 percent and more), and so is the one after the
  last: 100 is reached twice. With 40 targets the progress shown after the 23rd is 57, where
  57.5 rounds to 58: in binary64 \<^verbatim>\<open>(23 / 40) * 100\<close> is \<^verbatim>\<open>57.49999999999999\<close>.
\<close>

theorem progress_sequence_counterexample:
  "progress (run_updates sample_env (sample_state (replicate 201 (post ''Post'' ''https://a.blogspot.com/1'')) ''Great tips!'') ! 199) = 100
   \<and> progress (run_updates sample_env (sample_state (replicate 201 (post ''Post'' ''https://a.blogspot.com/1'')) ''Great tips!'') ! 200) = 100
   \<and> progress (run_updates sample_env (sample_state (replicate 40 (post ''Post'' ''https://a.blogspot.com/1'')) ''Great tips!'') ! 22) = 57
   \<and> spec_round_percent (22 + 1) 40 = 58"
proof -
  let ?s = "sample_state (replicate 201 (post ''Post'' ''https://a.blogspot.com/1'')) ''Great tips!''"
  let ?t = "sample_state (replicate 40 (post ''Post'' ''https://a.blogspot.com/1'')) ''Great tips!''"
  have n: "length (bulkTargets ?s) = 201" by (simp add: sample_state_def)
  have m: "length (bulkTargets ?t) = 40" by (simp add: sample_state_def)
  have "progress (run_updates sample_env ?s ! 199) = percent (199 + 1) 201"
    using run_updates_nth_progress [of 199 ?s sample_env] by (simp only: n)
  moreover have "progress (run_updates sample_env ?s ! 200) = percent (200 + 1) 201"
    using run_updates_nth_progress [of 200 ?s sample_env] by (simp only: n)
  moreover have "progress (run_updates sample_env ?t ! 22) = percent (22 + 1) 40"
    using run_updates_nth_progress [of 22 ?t sample_env] by (simp only: m)
  ultimately show ?thesis
    by (simp add: percent_200_201 percent_full percent_23_40 spec_round_percent_23_40)
qed

text \<open>
  Claim C2, amended. For every run over a non-empty target list of length \<open>N\<close>, the
  progress emitted after the target at index \<open>i\<close> is the value of
  \<^verbatim>\<open>Math.round(((i + 1) / N) * 100)\<close> as the program computes it, which for a list of less
  than \<open>2\<^sup>3\<^sup>2\<close> targets (the bound on the length of an array) is \<open>round((i + 1) / N * 100)\<close>
  whenever that percentage is not exactly halfway between two integers; the sequence of
  emitted values is non-decreasing; the run ends in the last emitted state, whose progress
  is 100; for \<open>N \<le> 199\<close> the value 100 is reached exactly once, at the final entry, and
  for \<open>N \<ge> 200\<close> the entry before the final one shows 100 as well.
\<close>

theorem progress_sequence:
  assumes "bulkTargets s \<noteq> []" and "generatedCommentText s \<noteq> []"
  shows "(\<forall>i < length (bulkTargets s).
            progress (run_updates env s ! i) = percent (i + 1) (length (bulkTargets s)))
         \<and> (length (bulkTargets s) < 2 ^ 32 \<longrightarrow>
              (\<forall>i < length (bulkTargets s).
                 \<not> percent_is_half (i + 1) (length (bulkTargets s)) \<longrightarrow>
                 progress (run_updates env s ! i)
                   = spec_round_percent (i + 1) (length (bulkTargets s))))
         \<and> sorted (map progress (run_updates env s))
         \<and> startBulk env s = (last (run_updates env s))\<lparr>isBulking := False\<rparr>
         \<and> progress (last (run_updates env s)) = 100
         \<and> (length (bulkTargets s) \<le> 199 \<longrightarrow>
              (\<forall>i < length (bulkTargets s).
                 progress (run_updates env s ! i) = 100 \<longleftrightarrow> i = length (bulkTargets s) - 1))
         \<and> (200 \<le> length (bulkTargets s) \<longrightarrow>
              progress (run_updates env s ! (length (bulkTargets s) - 2)) = 100)"
proof -
  let ?n = "length (bulkTargets s)"
  let ?us = "run_updates env s"
  have n: "0 < ?n" using assms by simp
  have len: "length ?us = ?n" by (rule run_updates_length)
  have nth: "progress (?us ! i) = percent (i + 1) ?n" if "i < ?n" for i
    using that by (rule run_updates_nth_progress)
  have exact: "progress (?us ! i) = spec_round_percent (i + 1) ?n"
    if "?n < 2 ^ 32" "i < ?n" "\<not> percent_is_half (i + 1) ?n" for i
  proof -
    have "percent (i + 1) ?n = spec_round_percent (i + 1) ?n"
      using that by (intro percent_exact) simp_all
    then show ?thesis using that(2) by (simp only: nth)
  qed
  have "sorted (map progress ?us)"
    unfolding sorted_iff_nth_mono
  proof (intro allI impI)
    fix i j assume "i \<le> j" "j < length (map progress ?us)"
    then have ij: "i \<le> j" "j < ?n" "i < ?n" by (simp_all add: len)
    have "percent (i + 1) ?n \<le> percent (j + 1) ?n"
      using ij n by (intro percent_mono) simp_all
    then show "map progress ?us ! i \<le> map progress ?us ! j"
      using ij by (simp add: len nth)
  qed
  moreover have ne: "?us \<noteq> []" using n len by auto
  have lastp: "progress (last ?us) = 100"
    using n by (simp add: last_conv_nth [OF ne] len nth percent_full)
  have fin: "startBulk env s = (last ?us)\<lparr>isBulking := False\<rparr>"
    using ne by (simp add: startBulk_run [OF assms] bulk_loop_last run_updates_def)
  have once: "progress (?us ! i) = 100 \<longleftrightarrow> i = ?n - 1" if "?n \<le> 199" "i < ?n" for i
  proof (cases "i = ?n - 1")
    case True
    then show ?thesis using n that by (simp add: nth percent_full)
  next
    case False
    then have "i + 1 < ?n" using that by simp
    then have "percent (i + 1) ?n < 100" using that by (intro percent_below_100) simp_all
    then show ?thesis using False that by (simp add: nth)
  qed
  have twice: "progress (?us ! (?n - 2)) = 100" if "200 \<le> ?n"
  proof -
    have "progress (?us ! (?n - 2)) = percent (?n - 2 + 1) ?n" using that by (intro nth) simp
    also have "?n - 2 + 1 = ?n - 1" using that by simp
    finally show ?thesis using percent_last_but_one [OF that] by simp
  qed
  ultimately show ?thesis using nth exact lastp fin once twice by blast
qed

theorem progress_sequence_witness:
  "bulkTargets (sample_state [post ''Post A'' ''https://a.blogspot.com/1'',
       post ''Post B'' ''https://b.blogspot.com/2'', post ''Post C'' ''https://c.blogspot.com/3'']
       ''Great tips!'') \<noteq> []
   \<and> generatedCommentText (sample_state [post ''Post A'' ''https://a.blogspot.com/1'',
       post ''Post B'' ''https://b.blogspot.com/2'', post ''Post C'' ''https://c.blogspot.com/3'']
       ''Great tips!'') \<noteq> []
   \<and> map progress (run_updates sample_env (sample_state [post ''Post A'' ''https://a.blogspot.com/1'',
       post ''Post B'' ''https://b.blogspot.com/2'', post ''Post C'' ''https://c.blogspot.com/3'']
       ''Great tips!'')) = [33, 67, 100]
   \<and> sorted (map progress (run_updates sample_env (sample_state [post ''Post A'' ''https://a.blogspot.com/1'',
       post ''Post B'' ''https://b.blogspot.com/2'', post ''Post C'' ''https://c.blogspot.com/3'']
       ''Great tips!'')))"
proof -
  let ?s = "sample_state [post ''Post A'' ''https://a.blogspot.com/1'',
       post ''Post B'' ''https://b.blogspot.com/2'', post ''Post C'' ''https://c.blogspot.com/3'']
       ''Great tips!''"
  have h1: "bulkTargets ?s \<noteq> []" by (simp add: sample_state_def)
  have h2: "generatedCommentText ?s \<noteq> []" by (simp add: sample_state_def js_def)
  have n: "length (bulkTargets ?s) = 3" by (simp add: sample_state_def)
  note r = progress_sequence [OF h1 h2, of sample_env]
  from r have a: "\<forall>i < length (bulkTargets ?s).
      progress (run_updates sample_env ?s ! i) = percent (i + 1) (length (bulkTargets ?s))"
    by (elim conjE)
  from r have b: "sorted (map progress (run_updates sample_env ?s))" by (elim conjE)
  have p: "percent (Suc 0) 3 = 33" "percent (Suc (Suc 0)) 3 = 67" "percent (Suc (Suc (Suc 0))) 3 = 100"
    "percent 2 3 = 67" "percent 3 3 = 100" by code_simp+
  have l: "length (run_updates sample_env ?s) = 3" using run_updates_length [of sample_env ?s] n by simp
  then obtain u0 u1 u2 where us: "run_updates sample_env ?s = [u0, u1, u2]"
    by (auto simp: length_Suc_conv numeral_3_eq_3)
  have "progress u0 = 33" using a [rule_format, of 0] by (simp add: n us p)
  moreover have "progress u1 = 67" using a [rule_format, of 1] by (simp add: n us p)
  moreover have "progress u2 = 100" using a [rule_format, of 2] by (simp add: n us p)
  ultimately have "map progress (run_updates sample_env ?s) = [33, 67, 100]" by (simp add: us)
  then show ?thesis using h1 h2 b by simp
qed

section \<open>The Bulk Runner: the simulated outcome\<close>

text \<open>
  Claim C7. In a run that passes the checks, the entry logged for the target at index \<open>i\<close>
  is a success if and only if the value drawn for it is greater than \<^verbatim>\<open>0.1\<close>, and a
  failure otherwise. The number that the literal \<^verbatim>\<open>0.1\<close> denotes is within \<open>2\<^sup>-\<^sup>5\<^sup>7\<close> of
  one tenth, so for a draw from \<open>[0, 1)\<close> the successes are an interval of length 0.9 and
  the failures one of length 0.1, up to that distance: with a uniform draw, success has
  probability 0.9 and failure 0.1.
\<close>

theorem outcome_by_draw:
  assumes "bulkTargets s \<noteq> []" and "generatedCommentText s \<noteq> []"
    and "i < length (bulkTargets s)"
  shows "(status (rev (logs (startBulk env s)) ! i) = Success \<longleftrightarrow> literal_0_1 < outcome (env i))
         \<and> (status (rev (logs (startBulk env s)) ! i) = Fail \<longleftrightarrow> outcome (env i) \<le> literal_0_1)
         \<and> \<bar>literal_0_1 - 1 / 10\<bar> < 1 / 2 ^ 57
         \<and> \<bar>(1 - literal_0_1) - 9 / 10\<bar> < 1 / 2 ^ 57"
proof -
  have "rev (logs (startBulk env s)) ! i = newLog (env i) (bulkTargets s ! i)"
    using assms(3) by (simp add: startBulk_logs [OF assms(1,2)])
  then have "status (rev (logs (startBulk env s)) ! i)
               = (if literal_0_1 < outcome (env i) then Success else Fail)"
    by (simp add: newLog_def Let_def)
  moreover have "\<bar>literal_0_1 - 1 / 10\<bar> < 1 / 2 ^ 57" "\<bar>(1 - literal_0_1) - 9 / 10\<bar> < 1 / 2 ^ 57"
    by (simp_all add: literal_0_1_value)
  ultimately show ?thesis by auto
qed

theorem outcome_by_draw_witness:
  "bulkTargets (sample_state [post ''Post A'' ''https://a.blogspot.com/1'',
                              post ''Post B'' ''https://b.blogspot.com/2''] ''Great tips!'') \<noteq> []
   \<and> generatedCommentText (sample_state [post ''Post A'' ''https://a.blogspot.com/1'',
                              post ''Post B'' ''https://b.blogspot.com/2''] ''Great tips!'') \<noteq> []
   \<and> (1::nat) < length (bulkTargets (sample_state [post ''Post A'' ''https://a.blogspot.com/1'',
                              post ''Post B'' ''https://b.blogspot.com/2''] ''Great tips!''))
   \<and> outcome (sample_env 1) = 1 / 16
   \<and> status (rev (logs (startBulk sample_env (sample_state [post ''Post A'' ''https://a.blogspot.com/1'',
                              post ''Post B'' ''https://b.blogspot.com/2''] ''Great tips!''))) ! 1) = Fail"
proof -
  let ?s = "sample_state [post ''Post A'' ''https://a.blogspot.com/1'',
                          post ''Post B'' ''https://b.blogspot.com/2''] ''Great tips!''"
  have h1: "bulkTargets ?s \<noteq> []" by (simp add: sample_state_def)
  have h2: "generatedCommentText ?s \<noteq> []" by (simp add: sample_state_def js_def)
  have h3: "(1::nat) < length (bulkTargets ?s)" by (simp add: sample_state_def)
  have o: "outcome (sample_env 1) = 1 / 16" by (simp add: sample_env_def)
  have "outcome (sample_env 1) \<le> literal_0_1" unfolding o literal_0_1_value by simp
  then have "status (rev (logs (startBulk sample_env ?s)) ! 1) = Fail"
    using outcome_by_draw [OF h1 h2 h3, of sample_env] by blast
  then show ?thesis using h1 h2 h3 o by simp
qed

section \<open>Import of the target list\<close>

text \<open>
  A line without a pipe and without a line break that is not blank is imported as one
  target, whose title and url are both the line.
\<close>

lemma imported_line_without_pipe:
  assumes "pipe \<notin> set line" "newline \<notin> set line" "js_trim line \<noteq> []"
  shows "imported line = [\<lparr>title = line, url = line\<rparr>]"
proof -
  have "line \<noteq> []" using assms(3) by (auto simp: js_trim_def)
  then show ?thesis
    using assms by (simp add: imported_single parse_line_no_pipe)
qed

text \<open>
  Claim C5 says that a line without a pipe is imported with the whole line as \<open>url\<close> and
  the placeholder \<^verbatim>\<open>Postingan Blog\<close> as \<open>title\<close>. The \<open>url\<close> is the whole line, but so is
  the \<open>title\<close>: the only piece of the split line is bound to \<open>title\<close>, which is then not
  empty, and the placeholder is not used.
\<close>

theorem import_line_without_pipe:
  "imported (js ''https://a.blogspot.com/1'')
     = [\<lparr>title = js ''https://a.blogspot.com/1'', url = js ''https://a.blogspot.com/1''\<rparr>]
   \<and> title (hd (imported (js ''https://a.blogspot.com/1''))) \<noteq> js ''Postingan Blog''"
  by (simp add: imported_def parse_line_def element_def js_trim_def is_space_def js_def
      pipe_def newline_def)

text \<open>
  Claim C10, as stated, fails for a line that starts with a pipe: the text before the first
  pipe (the first piece of the split line) is empty, and the title is the placeholder.
\<close>

theorem parse_line_with_pipe_counterexample:
  "pipe \<in> set (js ''|https://a.blogspot.com/1'')
   \<and> hd (js_split pipe (js ''|https://a.blogspot.com/1'')) = []
   \<and> title (parse_line (js ''|https://a.blogspot.com/1'')) = js ''Postingan Blog''
   \<and> title (parse_line (js ''|https://a.blogspot.com/1''))
       \<noteq> hd (js_split pipe (js ''|https://a.blogspot.com/1''))"
  by (simp add: parse_line_def element_def js_def pipe_def)

text \<open>
  Claim C10, amended. For every imported line that contains at least one pipe, \<open>title\<close> is
  the text before the first pipe, or the placeholder \<^verbatim>\<open>Postingan Blog\<close> when that text is
  empty; \<open>url\<close> is the text strictly between the first and the second pipe (up to the end of
  the line when there is no second pipe), any text after a second pipe being discarded; when
  that segment is empty, \<open>url\<close> is the entire line, pipes included.
\<close>

theorem parse_line_with_pipe:
  assumes "pipe \<in> set line"
  shows "title (parse_line line) =
           (if takeWhile (\<lambda>c. c \<noteq> pipe) line = [] then js ''Postingan Blog''
            else takeWhile (\<lambda>c. c \<noteq> pipe) line)
         \<and> url (parse_line line) =
           (if takeWhile (\<lambda>c. c \<noteq> pipe) (tl (dropWhile (\<lambda>c. c \<noteq> pipe) line)) = [] then line
            else takeWhile (\<lambda>c. c \<noteq> pipe) (tl (dropWhile (\<lambda>c. c \<noteq> pipe) line)))"
proof -
  from assms obtain c r where d: "dropWhile (\<lambda>c. c \<noteq> pipe) line = c # r"
    by (cases "dropWhile (\<lambda>c. c \<noteq> pipe) line") auto
  show ?thesis unfolding parse_line_fields d by simp
qed

theorem parse_line_with_pipe_witness:
  "pipe \<in> set (js ''Post A|https://a.blogspot.com/1|extra'')
   \<and> parse_line (js ''Post A|https://a.blogspot.com/1|extra'')
       = \<lparr>title = js ''Post A'', url = js ''https://a.blogspot.com/1''\<rparr>
   \<and> pipe \<in> set (js ''Post A|'')
   \<and> parse_line (js ''Post A|'') = \<lparr>title = js ''Post A'', url = js ''Post A|''\<rparr>"
proof -
  have h1: "pipe \<in> set (js ''Post A|https://a.blogspot.com/1|extra'')"
    by (simp add: js_def pipe_def)
  have h2: "pipe \<in> set (js ''Post A|'')" by (simp add: js_def pipe_def)
  have "parse_line (js ''Post A|https://a.blogspot.com/1|extra'')
       = \<lparr>title = title (parse_line (js ''Post A|https://a.blogspot.com/1|extra'')),
          url = url (parse_line (js ''Post A|https://a.blogspot.com/1|extra''))\<rparr>" by simp
  also have "\<dots> = \<lparr>title = js ''Post A'', url = js ''https://a.blogspot.com/1''\<rparr>"
    using parse_line_with_pipe [OF h1] by (simp add: js_def pipe_def)
  finally have a: "parse_line (js ''Post A|https://a.blogspot.com/1|extra'')
       = \<lparr>title = js ''Post A'', url = js ''https://a.blogspot.com/1''\<rparr>" .
  have "parse_line (js ''Post A|'')
       = \<lparr>title = title (parse_line (js ''Post A|'')), url = url (parse_line (js ''Post A|''))\<rparr>"
    by simp
  also have "\<dots> = \<lparr>title = js ''Post A'', url = js ''Post A|''\<rparr>"
    using parse_line_with_pipe [OF h2] by (simp add: js_def pipe_def)
  finally show ?thesis using h1 h2 a by simp
qed

section \<open>Export and import\<close>

lemma well_formed_pipe: "well_formed [pipe]"
  by (simp add: pipe_def is_high_def is_low_def)

lemma well_formed_newline: "well_formed [newline]"
  by (simp add: newline_def is_high_def is_low_def)

lemma well_formed_join:
  "\<forall>l \<in> set lines. well_formed l \<Longrightarrow> well_formed (js_join [newline] lines)"
proof (induction "[newline]" lines rule: js_join.induct)
  case 1
  show ?case by simp
next
  case (2 x)
  then show ?case by simp
next
  case (3 x y ys)
  then have "well_formed x" "well_formed (js_join [newline] (y # ys))" by simp_all
  then have "well_formed (x @ [newline] @ js_join [newline] (y # ys))"
    by (intro well_formed_append well_formed_newline)
  then show ?case by simp
qed

lemma hd_js_join: "l \<noteq> [] \<Longrightarrow> hd (js_join sep (l # ls)) = hd l"
  by (cases ls) simp_all

lemma upload_export:
  assumes "exportToTxt s = Some (blob_bytes content)" "readAsText (blob_bytes content) = text"
  shows "bulkTargets (handleFileUpload (exportToTxt s) s') = imported text"
  using assms by (simp add: handleFileUpload_def Let_def)

text \<open>
  Claim C6, as stated, fails. No title below contains a pipe, and yet the list that comes
  back from the exported file differs from the one exported: a url with a pipe is cut at the
  pipe; an empty url comes back as the whole line; an empty title comes back as the
  placeholder; a line break inside a title gives two targets; a byte order mark U+FEFF at
  the start of the first title is dropped when the file is read; a surrogate without its
  partner is written to the file as U+FFFD; and for the empty list nothing is exported.
\<close>

theorem export_import_counterexample:
  "pipe \<notin> set (title (post ''Post A'' ''https://a.blogspot.com/?q=x|y''))
   \<and> bulkTargets (handleFileUpload
         (exportToTxt (finder_state [post ''Post A'' ''https://a.blogspot.com/?q=x|y'']))
         (finder_state [post ''Post A'' ''https://a.blogspot.com/?q=x|y'']))
       = [post ''Post A'' ''https://a.blogspot.com/?q=x'']
   \<and> post ''Post A'' ''https://a.blogspot.com/?q=x''
       \<noteq> post ''Post A'' ''https://a.blogspot.com/?q=x|y''
   \<and> bulkTargets (handleFileUpload (exportToTxt (finder_state [post ''Post A'' []]))
         (finder_state [post ''Post A'' []])) = [post ''Post A'' ''Post A|'']
   \<and> bulkTargets (handleFileUpload
         (exportToTxt (finder_state [post [] ''https://a.blogspot.com/1'']))
         (finder_state [post [] ''https://a.blogspot.com/1'']))
       = [post ''Postingan Blog'' ''https://a.blogspot.com/1'']
   \<and> bulkTargets (handleFileUpload
         (exportToTxt (finder_state [\<lparr>title = js ''Post'' @ [newline] @ js ''A'',
                                       url = js ''https://a.blogspot.com/1''\<rparr>]))
         (finder_state [\<lparr>title = js ''Post'' @ [newline] @ js ''A'',
                         url = js ''https://a.blogspot.com/1''\<rparr>]))
       = [post ''Post'' ''Post'', post ''A'' ''https://a.blogspot.com/1'']
   \<and> bulkTargets (handleFileUpload
         (exportToTxt (finder_state [\<lparr>title = [0xFEFF] @ js ''Post A'',
                                       url = js ''https://a.blogspot.com/1''\<rparr>]))
         (finder_state [\<lparr>title = [0xFEFF] @ js ''Post A'',
                         url = js ''https://a.blogspot.com/1''\<rparr>]))
       = [post ''Post A'' ''https://a.blogspot.com/1'']
   \<and> bulkTargets (handleFileUpload
         (exportToTxt (finder_state [\<lparr>title = js ''Post '' @ [0xD83D],
                                       url = js ''https://a.blogspot.com/1''\<rparr>]))
         (finder_state [\<lparr>title = js ''Post '' @ [0xD83D],
                         url = js ''https://a.blogspot.com/1''\<rparr>]))
       = [\<lparr>title = js ''Post '' @ [0xFFFD], url = js ''https://a.blogspot.com/1''\<rparr>]
   \<and> exportToTxt (finder_state []) = None"
proof -
  have e: "exportToTxt (finder_state [post ''Post A'' ''https://a.blogspot.com/?q=x|y''])
             = Some (blob_bytes (js ''Post A|https://a.blogspot.com/?q=x|y''))"
    "exportToTxt (finder_state [post ''Post A'' []]) = Some (blob_bytes (js ''Post A|''))"
    "exportToTxt (finder_state [post [] ''https://a.blogspot.com/1''])
       = Some (blob_bytes (js ''|https://a.blogspot.com/1''))"
    "exportToTxt (finder_state [\<lparr>title = js ''Post'' @ [newline] @ js ''A'',
                                   url = js ''https://a.blogspot.com/1''\<rparr>])
       = Some (blob_bytes (js ''Post'' @ [newline] @ js ''A|https://a.blogspot.com/1''))"
    "exportToTxt (finder_state [\<lparr>title = [0xFEFF] @ js ''Post A'',
                                   url = js ''https://a.blogspot.com/1''\<rparr>])
       = Some (blob_bytes ([0xFEFF] @ js ''Post A|https://a.blogspot.com/1''))"
    "exportToTxt (finder_state [\<lparr>title = js ''Post '' @ [0xD83D],
                                   url = js ''https://a.blogspot.com/1''\<rparr>])
       = Some (blob_bytes (js ''Post '' @ [0xD83D] @ js ''|https://a.blogspot.com/1''))"
    "exportToTxt (finder_state []) = None"
    by (simp_all add: exportToTxt_def finder_state_def post_def js_def pipe_def)
  have r: "readAsText (blob_bytes (js ''Post A|https://a.blogspot.com/?q=x|y''))
             = js ''Post A|https://a.blogspot.com/?q=x|y''"
    "readAsText (blob_bytes (js ''Post A|'')) = js ''Post A|''"
    "readAsText (blob_bytes (js ''|https://a.blogspot.com/1'')) = js ''|https://a.blogspot.com/1''"
    "readAsText (blob_bytes (js ''Post'' @ [newline] @ js ''A|https://a.blogspot.com/1''))
       = js ''Post'' @ [newline] @ js ''A|https://a.blogspot.com/1''"
    by (rule readAsText_blob; simp add: js_def newline_def is_high_def is_low_def)+
  have r': "readAsText (blob_bytes ([0xFEFF] @ js ''Post A|https://a.blogspot.com/1''))
             = js ''Post A|https://a.blogspot.com/1''"
    "readAsText (blob_bytes (js ''Post '' @ [0xD83D] @ js ''|https://a.blogspot.com/1''))
       = js ''Post '' @ [0xFFFD] @ js ''|https://a.blogspot.com/1''"
    by (simp_all add: readAsText_def blob_bytes_def utf8_encode_def utf8_decode.simps
        utf16_units_def js_def is_high_def is_low_def)
  have i: "imported (js ''Post A|https://a.blogspot.com/?q=x|y'')
             = [post ''Post A'' ''https://a.blogspot.com/?q=x'']"
    "imported (js ''Post A|'') = [post ''Post A'' ''Post A|'']"
    "imported (js ''|https://a.blogspot.com/1'')
       = [post ''Postingan Blog'' ''https://a.blogspot.com/1'']"
    "imported (js ''Post'' @ [newline] @ js ''A|https://a.blogspot.com/1'')
       = [post ''Post'' ''Post'', post ''A'' ''https://a.blogspot.com/1'']"
    "imported (js ''Post A|https://a.blogspot.com/1'') = [post ''Post A'' ''https://a.blogspot.com/1'']"
    "imported (js ''Post '' @ [0xFFFD] @ js ''|https://a.blogspot.com/1'')
       = [\<lparr>title = js ''Post '' @ [0xFFFD], url = js ''https://a.blogspot.com/1''\<rparr>]"
    by (simp_all add: imported_def parse_line_def element_def js_trim_def is_space_def js_def
        pipe_def newline_def post_def)
  have n: "pipe \<notin> set (title (post ''Post A'' ''https://a.blogspot.com/?q=x|y''))"
    "post ''Post A'' ''https://a.blogspot.com/?q=x'' \<noteq> post ''Post A'' ''https://a.blogspot.com/?q=x|y''"
    by (simp_all add: post_def js_def pipe_def)
  note u = upload_export [OF e(1) r(1)] upload_export [OF e(2) r(2)] upload_export [OF e(3) r(3)]
    upload_export [OF e(4) r(4)] upload_export [OF e(5) r'(1)] upload_export [OF e(6) r'(2)]
  show ?thesis using n e(7) by (simp only: u i simp_thms)
qed

text \<open>
  Claim C6, amended. For every non-empty list of results in which every title and every url
  is non-empty, contains neither the pipe nor the line break and has no surrogate without
  its partner, and whose first title does not start with U+FEFF, \<open>exportToTxt\<close> produces
  a file, and importing that file gives a target list equal to the original, pair by pair
  and in the same order.
\<close>

theorem export_import_roundtrip:
  assumes "searchResults s \<noteq> []"
    and "\<forall>r \<in> set (searchResults s).
           title r \<noteq> [] \<and> url r \<noteq> [] \<and> pipe \<notin> set (title r) \<and> pipe \<notin> set (url r)
           \<and> newline \<notin> set (title r) \<and> newline \<notin> set (url r)
           \<and> well_formed (title r) \<and> well_formed (url r)"
    and "hd (title (hd (searchResults s))) \<noteq> 0xFEFF"
  shows "\<exists>file. exportToTxt s = Some file \<and> imported (readAsText file) = searchResults s
           \<and> bulkTargets (handleFileUpload (Some file) s') = searchResults s"
proof -
  let ?lines = "map (\<lambda>r. title r @ [pipe] @ url r) (searchResults s)"
  let ?content = "js_join [newline] ?lines"
  have e: "exportToTxt s = Some (blob_bytes ?content)"
    using assms(1) by (simp add: exportToTxt_def)
  have l: "\<forall>l \<in> set ?lines. newline \<notin> set l \<and> js_trim l \<noteq> [] \<and> well_formed l"
  proof
    fix l assume "l \<in> set ?lines"
    then obtain r where r: "r \<in> set (searchResults s)" "l = title r @ [pipe] @ url r" by auto
    have "pipe \<in> set l" by (simp add: r(2))
    then have "js_trim l \<noteq> []" using pipe_not_space by (rule js_trim_not_Nil)
    moreover have "newline \<notin> set l" using assms(2) r pipe_not_newline by auto
    moreover have "well_formed l"
      unfolding r(2) using assms(2) r(1) by (intro well_formed_append well_formed_pipe) simp_all
    ultimately show "newline \<notin> set l \<and> js_trim l \<noteq> [] \<and> well_formed l" by simp
  qed
  have ne: "?lines \<noteq> []" using assms(1) by simp
  have wf: "well_formed ?content" using l by (intro well_formed_join) simp
  obtain r rs where rs: "searchResults s = r # rs" using assms(1) by (cases "searchResults s") auto
  have "title r \<noteq> []" using assms(2) rs by simp
  then have "hd ?content = hd (title r)" by (simp add: rs hd_js_join)
  then have bom: "?content \<noteq> [] \<longrightarrow> hd ?content \<noteq> 0xFEFF" using assms(3) rs by simp
  have read: "readAsText (blob_bytes ?content) = ?content" using wf bom by (rule readAsText_blob)
  have "imported ?content = map parse_line ?lines"
    using ne l by (intro imported_join) simp_all
  also have "\<dots> = map (\<lambda>r. r) (searchResults s)"
    unfolding map_map by (rule map_cong) (use assms(2) in \<open>simp_all add: parse_line_record\<close>)
  finally have i: "imported ?content = searchResults s" by simp
  show ?thesis using e i read by (simp add: handleFileUpload_def Let_def)
qed

theorem export_import_roundtrip_witness:
  "searchResults (finder_state [post ''Post A'' ''https://a.blogspot.com/1'',
                                post ''Post B'' ''https://b.blogspot.com/2'']) \<noteq> []
   \<and> hd (title (hd (searchResults (finder_state [post ''Post A'' ''https://a.blogspot.com/1'',
                                post ''Post B'' ''https://b.blogspot.com/2''])))) \<noteq> 0xFEFF
   \<and> exportToTxt (finder_state [post ''Post A'' ''https://a.blogspot.com/1'',
                                post ''Post B'' ''https://b.blogspot.com/2''])
       = Some (blob_bytes (js ''Post A|https://a.blogspot.com/1'' @ [newline]
                           @ js ''Post B|https://b.blogspot.com/2''))
   \<and> imported (readAsText (blob_bytes (js ''Post A|https://a.blogspot.com/1'' @ [newline]
                           @ js ''Post B|https://b.blogspot.com/2'')))
       = [post ''Post A'' ''https://a.blogspot.com/1'', post ''Post B'' ''https://b.blogspot.com/2'']"
proof -
  let ?s = "finder_state [post ''Post A'' ''https://a.blogspot.com/1'',
                          post ''Post B'' ''https://b.blogspot.com/2'']"
  let ?c = "js ''Post A|https://a.blogspot.com/1'' @ [newline] @ js ''Post B|https://b.blogspot.com/2''"
  have r: "searchResults ?s = [post ''Post A'' ''https://a.blogspot.com/1'',
                               post ''Post B'' ''https://b.blogspot.com/2'']"
    by (simp add: finder_state_def)
  have h1: "searchResults ?s \<noteq> []" by (simp add: r)
  have h2: "\<forall>r \<in> set (searchResults ?s).
           title r \<noteq> [] \<and> url r \<noteq> [] \<and> pipe \<notin> set (title r) \<and> pipe \<notin> set (url r)
           \<and> newline \<notin> set (title r) \<and> newline \<notin> set (url r)
           \<and> well_formed (title r) \<and> well_formed (url r)"
    unfolding r by (simp add: post_def js_def pipe_def newline_def is_high_def is_low_def)
  have h3: "hd (title (hd (searchResults ?s))) \<noteq> 0xFEFF"
    unfolding r by (simp add: post_def js_def)
  have e: "exportToTxt ?s = Some (blob_bytes ?c)"
    by (simp add: exportToTxt_def finder_state_def post_def js_def pipe_def)
  from export_import_roundtrip [OF h1 h2 h3, of ?s]
  obtain bytes where c: "exportToTxt ?s = Some bytes" "imported (readAsText bytes) = searchResults ?s"
    by blast
  from c(1) e have "bytes = blob_bytes ?c" by (simp only: option.inject)
  with c(2) have "imported (readAsText (blob_bytes ?c)) = searchResults ?s" by (simp only:)
  then show ?thesis using h1 h3 e unfolding r by (simp only: simp_thms)
qed

section \<open>Results of the Blog Finder\<close>

text \<open>
  Claim C8, as stated, fails: nothing removes duplicates, so two equal chunks of the
  service's answer give two equal results; and a negative count cuts results off the end of
  the list instead of bounding its length.
\<close>

theorem searchBlogs_counterexample:
  "searchBlogs sample_service (js ''tekno'') 10
     = Some [post ''Post A'' ''https://a.blogspot.com/2024/01/a.html'',
             post ''Post A'' ''https://a.blogspot.com/2024/01/a.html'']
   \<and> \<not> distinct [post ''Post A'' ''https://a.blogspot.com/2024/01/a.html'',
                   post ''Post A'' ''https://a.blogspot.com/2024/01/a.html'']
   \<and> searchBlogs sample_service (js ''tekno'') (- 1)
     = Some [post ''Post A'' ''https://a.blogspot.com/2024/01/a.html'']
   \<and> \<not> int (length [post ''Post A'' ''https://a.blogspot.com/2024/01/a.html'']) \<le> - 1"
  by (simp add: searchBlogs_def sample_service_def chunk_item_def article_like_def
      js_slice0_def post_def js_def slash_def is_digit_def)

text \<open>
  Claim C8, amended. For every keyword and requested count, whenever the service answers,
  every url that \<open>searchBlogs\<close> returns has the article-like shape (it contains
  \<^verbatim>\<open>.html\<close> or a segment \<^verbatim>\<open>/dddd/dd/\<close> of digits), and for a count that is not negative
  the number of results is at most the count. The results are not deduplicated.
\<close>

theorem searchBlogs_results:
  assumes "searchBlogs ai keyword count = Some rs"
  shows "(\<forall>r \<in> set rs. article_like r) \<and> (0 \<le> count \<longrightarrow> int (length rs) \<le> count)"
proof (cases "ai keyword count")
  case None
  with assms show ?thesis by (simp add: searchBlogs_def)
next
  case (Some chunks)
  show ?thesis
  proof (cases chunks)
    case None
    with Some assms show ?thesis by (auto simp: searchBlogs_def)
  next
    case (Some cs)
    with \<open>ai keyword count = Some chunks\<close> assms
    have rs: "rs = js_slice0 (filter article_like (map chunk_item cs)) count"
      by (simp add: searchBlogs_def)
    have "set rs \<subseteq> set (filter article_like (map chunk_item cs))"
      unfolding rs by (rule js_slice0_set)
    then have "\<forall>r \<in> set rs. article_like r" by auto
    moreover have "0 \<le> count \<longrightarrow> int (length rs) \<le> count"
      unfolding rs by (simp add: js_slice0_length)
    ultimately show ?thesis by simp
  qed
qed

theorem searchBlogs_results_witness:
  "searchBlogs sample_service (js ''tekno'') 1
     = Some [post ''Post A'' ''https://a.blogspot.com/2024/01/a.html'']
   \<and> article_like (post ''Post A'' ''https://a.blogspot.com/2024/01/a.html'')
   \<and> int (length [post ''Post A'' ''https://a.blogspot.com/2024/01/a.html'']) \<le> 1"
proof -
  have h: "searchBlogs sample_service (js ''tekno'') 1
     = Some [post ''Post A'' ''https://a.blogspot.com/2024/01/a.html'']"
    by (simp add: searchBlogs_def sample_service_def chunk_item_def article_like_def
      js_slice0_def post_def js_def slash_def is_digit_def)
  show ?thesis using h searchBlogs_results [OF h] by simp
qed

end
